theory Spec2Isabelle
  imports Complex_Main
begin

section \<open>JavaScript strings and regular expressions\<close>

text \<open>
  A JavaScript string is a sequence of UTF-16 code units. The model uses \<^typ>\<open>string\<close>,
  whose characters are the code units below 256 (ASCII and Latin-1); \<^term>\<open>length\<close>
  is the \<^verbatim>\<open>.length\<close> of the source. Every regular expression of the source is
  written out as the list function that computes what the expression matches; the
  expression is quoted next to each function.
\<close>

definition is_space :: "char \<Rightarrow> bool" where
  \<comment> \<open>\<^verbatim>\<open>\s\<close>, and what \<^verbatim>\<open>trim()\<close> removes: TAB, LF, VT, FF, CR, SP, NBSP.\<close>
  "is_space c = (let n = (of_char c :: nat) in (9 \<le> n \<and> n \<le> 13) \<or> n = 32 \<or> n = 160)"

definition is_digit :: "char \<Rightarrow> bool" where
  \<comment> \<open>\<^verbatim>\<open>\d\<close>\<close>
  "is_digit c = (let n = (of_char c :: nat) in 48 \<le> n \<and> n \<le> 57)"

definition is_letter :: "char \<Rightarrow> bool" where
  \<comment> \<open>\<^verbatim>\<open>[A-Za-z]\<close>\<close>
  "is_letter c = (let n = (of_char c :: nat) in (65 \<le> n \<and> n \<le> 90) \<or> (97 \<le> n \<and> n \<le> 122))"

definition is_word :: "char \<Rightarrow> bool" where
  \<comment> \<open>\<^verbatim>\<open>\w\<close>, that is \<^verbatim>\<open>[A-Za-z0-9_]\<close>\<close>
  "is_word c = (is_letter c \<or> is_digit c \<or> c = CHR ''_'')"

definition is_line_end :: "char \<Rightarrow> bool" where
  \<comment> \<open>the line terminators below 256, after which \<^verbatim>\<open>^\<close> matches under the m flag\<close>
  "is_line_end c = (c = CHR 0x0A \<or> c = CHR 0x0D)"

definition lower_char :: "char \<Rightarrow> char" where
  \<comment> \<open>\<^verbatim>\<open>String.prototype.toLowerCase\<close> on one code unit: A-Z and the Latin-1 capitals\<close>
  "lower_char c =
     (let n = (of_char c :: nat)
      in if (65 \<le> n \<and> n \<le> 90) \<or> (192 \<le> n \<and> n \<le> 222 \<and> n \<noteq> 215)
         then char_of (n + 32) else c)"

definition toLowerCase :: "string \<Rightarrow> string" where
  "toLowerCase s = map lower_char s"

definition upper_char :: "char \<Rightarrow> string" where
  \<comment> \<open>\<^verbatim>\<open>toUpperCase\<close> on one code unit: a-z and the Latin-1 small letters; sharp s
      becomes SS. The capitals of y-diaeresis and of the micro sign lie above 255 and are
      left as they are.\<close>
  "upper_char c =
     (let n = (of_char c :: nat)
      in if (97 \<le> n \<and> n \<le> 122) \<or> (224 \<le> n \<and> n \<le> 254 \<and> n \<noteq> 247)
         then [char_of (n - 32)]
         else if n = 223 then ''SS'' else [c])"

definition fold_case :: "char \<Rightarrow> char" where
  \<comment> \<open>the canonical form under the i flag, as far as it decides a comparison with an
      ASCII pattern character: a-z and A-Z coincide, nothing above 127 becomes ASCII\<close>
  "fold_case c =
     (let n = (of_char c :: nat) in if 97 \<le> n \<and> n \<le> 122 then char_of (n - 32) else c)"

definition ci_eq :: "char \<Rightarrow> char \<Rightarrow> bool" where
  "ci_eq a b = (fold_case a = fold_case b)"

fun starts_with_by :: "(char \<Rightarrow> char \<Rightarrow> bool) \<Rightarrow> string \<Rightarrow> string \<Rightarrow> bool" where
  "starts_with_by eq s [] = True"
| "starts_with_by eq [] (p # ps) = False"
| "starts_with_by eq (c # cs) (p # ps) = (eq c p \<and> starts_with_by eq cs ps)"

fun includes_by :: "(char \<Rightarrow> char \<Rightarrow> bool) \<Rightarrow> string \<Rightarrow> string \<Rightarrow> bool" where
  "includes_by eq [] p = (p = [])"
| "includes_by eq (c # cs) p = (starts_with_by eq (c # cs) p \<or> includes_by eq cs p)"

definition includes_str :: "string \<Rightarrow> string \<Rightarrow> bool" where
  \<comment> \<open>\<^verbatim>\<open>s.includes(p)\<close>\<close>
  "includes_str s p = includes_by (=) s p"

definition test_ci :: "string \<Rightarrow> string \<Rightarrow> bool" where
  \<comment> \<open>\<^verbatim>\<open>/p/i.test(s)\<close> for a pattern \<open>p\<close> of literal characters\<close>
  "test_ci p s = includes_by ci_eq s p"

definition test_start_ci :: "string \<Rightarrow> string \<Rightarrow> bool" where
  \<comment> \<open>\<^verbatim>\<open>/^p/i.test(s)\<close> for a pattern \<open>p\<close> of literal characters\<close>
  "test_start_ci p s = starts_with_by ci_eq s p"

definition trim :: "string \<Rightarrow> string" where
  "trim s = rev (dropWhile is_space (rev (dropWhile is_space s)))"

function replace_runs :: "(char \<Rightarrow> bool) \<Rightarrow> nat \<Rightarrow> string \<Rightarrow> string \<Rightarrow> string" where
  \<comment> \<open>\<^verbatim>\<open>s.replace(/C{k,}/g, r)\<close> for a character class \<open>C\<close>: the match is greedy, so
      every maximal run of at least \<open>k\<close> characters of \<open>C\<close> becomes \<open>r\<close>\<close>
  "replace_runs P k r [] = []"
| "replace_runs P k r (c # cs) =
     (if P c then
        (if k \<le> Suc (length (takeWhile P cs)) then r else c # takeWhile P cs)
          @ replace_runs P k r (dropWhile P cs)
      else c # replace_runs P k r cs)"
  by pat_completeness auto
termination
  by (relation "measure (\<lambda>(P, k, r, s). length s)")
     (auto simp: le_imp_less_Suc length_dropWhile_le)

function split_re :: "(char \<Rightarrow> bool) \<Rightarrow> string \<Rightarrow> string list" where
  \<comment> \<open>\<^verbatim>\<open>s.split(/C+/)\<close>: the pieces between the maximal runs of \<open>C\<close>; a run at the
      start or at the end leaves an empty piece, and the empty string gives one empty piece\<close>
  "split_re P s =
     (case dropWhile (\<lambda>c. \<not> P c) s of
        [] \<Rightarrow> [s]
      | d # ds \<Rightarrow> takeWhile (\<lambda>c. \<not> P c) s # split_re P (dropWhile P ds))"
  by pat_completeness auto
termination
proof (relation "measure (\<lambda>(P, s). length s)")
  show "wf (measure (\<lambda>(P :: char \<Rightarrow> bool, s :: string). length s))"
    by simp
next
  fix P :: "char \<Rightarrow> bool" and s :: string and d ds
  assume d: "dropWhile (\<lambda>c. \<not> P c) s = d # ds"
  have "length (dropWhile P ds) \<le> length ds"
    by (rule length_dropWhile_le)
  moreover have "length (d # ds) \<le> length s"
    unfolding d [symmetric] by (rule length_dropWhile_le)
  ultimately show "((P, dropWhile P ds), (P, s)) \<in> measure (\<lambda>(P, s). length s)"
    by simp
qed

declare split_re.simps [simp del]

fun split_char :: "char \<Rightarrow> string \<Rightarrow> string \<Rightarrow> string list" where
  \<comment> \<open>\<^verbatim>\<open>s.split(ch)\<close> for a separator of one character; the second argument is the
      piece read so far, reversed\<close>
  "split_char ch acc [] = [rev acc]"
| "split_char ch acc (c # cs) =
     (if c = ch then rev acc # split_char ch [] cs else split_char ch (c # acc) cs)"

fun join :: "string \<Rightarrow> string list \<Rightarrow> string" where
  \<comment> \<open>\<^verbatim>\<open>xs.join(sep)\<close>\<close>
  "join sep [] = []"
| "join sep [x] = x"
| "join sep (x # y # ys) = x @ sep @ join sep (y # ys)"

definition count_char :: "char \<Rightarrow> string \<Rightarrow> nat" where
  \<comment> \<open>\<^verbatim>\<open>(s.match(/c/g) || []).length\<close>\<close>
  "count_char ch s = length (filter (\<lambda>c. c = ch) s)"

definition has_digit :: "string \<Rightarrow> bool" where
  \<comment> \<open>\<^verbatim>\<open>/\d+/.test(s)\<close> and \<^verbatim>\<open>/\d/.test(s)\<close>\<close>
  "has_digit s = list_ex is_digit s"

definition has_question :: "string \<Rightarrow> bool" where
  \<comment> \<open>\<^verbatim>\<open>/\?/.test(s)\<close>\<close>
  "has_question s = (CHR ''?'' \<in> set s)"

fun show_digits :: "nat \<Rightarrow> nat \<Rightarrow> string" where
  \<comment> \<open>the decimal digits of a number, the first argument bounding their count\<close>
  "show_digits 0 n = []"
| "show_digits (Suc f) n =
     (if n < 10 then [char_of (48 + n)] else show_digits f (n div 10) @ [char_of (48 + n mod 10)])"

definition show_nat :: "nat \<Rightarrow> string" where
  \<comment> \<open>\<^verbatim>\<open>`${n}`\<close> for a natural number\<close>
  "show_nat n = show_digits (Suc n) n"

definition clamp10 :: "real \<Rightarrow> real" where
  \<comment> \<open>\<^verbatim>\<open>Math.max(0, Math.min(10, x))\<close>\<close>
  "clamp10 x = max 0 (min 10 x)"

section \<open>Platform strategies\<close>

text \<open>
  The interface types of \<^verbatim>\<open>platform-strategy.interface.ts\<close>. An optional field that a
  caller may leave \<^verbatim>\<open>undefined\<close> is an \<^typ>\<open>'a option\<close>; numbers that are
  scores are reals, counts and lengths are naturals.
\<close>

record PlatformConstraints =
  maxLength :: nat
  minLength :: nat
  maxHashtags :: nat
  supportsThreads :: bool
  supportsMedia :: bool
  characterLimit :: nat

datatype Tone = Professional | Casual | Conversational | Formal | Humorous

record ContentContext =
  topic :: string
  tone :: "Tone option"
  targetAudience :: "string option"
  includeHashtags :: "bool option"
  includeEmojis :: "bool option"
  callToAction :: "string option"
  format :: "string option"

datatype Engagement = Low | Medium | High

record Metadata =
  platform :: string
  characterCount :: nat
  wordCount :: nat
  estimatedEngagement :: Engagement
  suggestions :: "string list"

record OptimizedContent =
  content :: string
  hashtags :: "string list"
  metadata :: Metadata

record ValidationResult =
  isValid :: bool
  errors :: "string list"
  warnings :: "string list"
  score :: real

definition truthy :: "bool option \<Rightarrow> bool" where
  \<comment> \<open>an optional boolean used as a condition: \<^verbatim>\<open>undefined\<close> is falsy\<close>
  "truthy b = (b = Some True)"

function match_hashtags :: "string \<Rightarrow> string list" where
  \<comment> \<open>\<^verbatim>\<open>s.match(/#[\w]+/g) || []\<close>\<close>
  "match_hashtags [] = []"
| "match_hashtags (c # cs) =
     (if c = CHR ''#'' \<and> takeWhile is_word cs \<noteq> []
      then (c # takeWhile is_word cs) # match_hashtags (dropWhile is_word cs)
      else match_hashtags cs)"
  by pat_completeness auto
termination
  by (relation "measure length") (auto simp: le_imp_less_Suc length_dropWhile_le)

function remove_hashtags :: "string \<Rightarrow> string" where
  \<comment> \<open>\<^verbatim>\<open>s.replace(/#[\w]+/g, '')\<close>\<close>
  "remove_hashtags [] = []"
| "remove_hashtags (c # cs) =
     (if c = CHR ''#'' \<and> takeWhile is_word cs \<noteq> []
      then remove_hashtags (dropWhile is_word cs)
      else c # remove_hashtags cs)"
  by pat_completeness auto
termination
  by (relation "measure length") (auto simp: le_imp_less_Suc length_dropWhile_le)

definition capitalize :: "string \<Rightarrow> string" where
  \<comment> \<open>\<^verbatim>\<open>w.charAt(0).toUpperCase() + w.slice(1)\<close>\<close>
  "capitalize w = (case w of [] \<Rightarrow> [] | c # cs \<Rightarrow> upper_char c @ cs)"

definition strip_hash :: "string \<Rightarrow> string" where
  \<comment> \<open>\<^verbatim>\<open>h.replace('#', '')\<close>: a string pattern replaces its first occurrence only\<close>
  "strip_hash h = remove1 (CHR ''#'') h"

definition is_quote :: "char \<Rightarrow> bool" where
  \<comment> \<open>\<^verbatim>\<open>["']\<close>\<close>
  "is_quote c = (c = CHR 0x22 \<or> c = CHR 0x27)"

definition strip_quotes :: "string \<Rightarrow> string" where
  \<comment> \<open>\<^verbatim>\<open>s.replace(/^["']|["']$/g, '')\<close>: one quote at the start, then one quote at
      the end of what is left\<close>
  "strip_quotes s =
     (let s1 = (case s of [] \<Rightarrow> [] | c # cs \<Rightarrow> if is_quote c then cs else c # cs)
      in if s1 \<noteq> [] \<and> is_quote (last s1) then butlast s1 else s1)"

definition strip_label :: "string list \<Rightarrow> string \<Rightarrow> string" where
  \<comment> \<open>\<^verbatim>\<open>s.replace(/^(L1|L2):\s*/i, '')\<close>: the first alternative that matches at the
      start goes, with its colon and the white space after it\<close>
  "strip_label labels s =
     (case find (\<lambda>l. test_start_ci (l @ '':'') s) labels of
        None \<Rightarrow> s
      | Some l \<Rightarrow> dropWhile is_space (drop (length l + 1) s))"

definition is_bang :: "char \<Rightarrow> bool" where
  "is_bang c = (c = CHR ''!'')"

definition is_qmark :: "char \<Rightarrow> bool" where
  "is_qmark c = (c = CHR ''?'')"

definition is_dot :: "char \<Rightarrow> bool" where
  "is_dot c = (c = CHR ''.'')"

definition is_newline :: "char \<Rightarrow> bool" where
  "is_newline c = (c = CHR 0x0A)"

subsection \<open>TwitterStrategy\<close>

definition twitter_CHAR_LIMIT :: nat where
  "twitter_CHAR_LIMIT = 280"

definition twitter_MAX_HASHTAGS :: nat where
  "twitter_MAX_HASHTAGS = 2"

definition twitter_getConstraints :: PlatformConstraints where
  "twitter_getConstraints =
     \<lparr> maxLength = twitter_CHAR_LIMIT, minLength = 50, maxHashtags = twitter_MAX_HASHTAGS,
       supportsThreads = True, supportsMedia = True, characterLimit = twitter_CHAR_LIMIT \<rparr>"

definition twitter_generateHashtags :: "string \<Rightarrow> string list" where
  "twitter_generateHashtags tp =
     (let words = filter (\<lambda>w. length w > 3) (split_char (CHR '' '') [] tp)
      in map (\<lambda>w. ''#'' @ capitalize w) (take 2 words))"

definition twitter_generateSuggestions :: "string \<Rightarrow> ContentContext \<Rightarrow> string list" where
  "twitter_generateSuggestions c ctx =
     (if length c < 100
      then [''Consider expanding with a specific example or data point''] else [])
     @ (if \<not> has_question c
        then [''Add a question at the end to encourage replies''] else [])
     @ (if \<not> has_digit c
        then [''Consider adding specific numbers or metrics for credibility''] else [])
     @ (if format ctx = Some ''thread'' \<and> \<not> includes_str c ''---''
        then [''For threads, separate tweets with '' @ [CHR 0x22] @ ''---'' @ [CHR 0x22]]
        else [])"

definition twitter_optimize :: "string \<Rightarrow> ContentContext \<Rightarrow> OptimizedContent" where
  "twitter_optimize c ctx =
     (let c0 = trim c;
          foundHashtags = match_hashtags c0;
          c1 = (if length foundHashtags > 0 then trim (remove_hashtags c0) else c0);
          tags1 = (if length foundHashtags > 0
                   then take twitter_MAX_HASHTAGS foundHashtags else []);
          tags2 = (if truthy (includeHashtags ctx) \<and> length tags1 = 0
                   then tags1 @ take twitter_MAX_HASHTAGS (twitter_generateHashtags (topic ctx))
                   else tags1);
          c2 = (if length tags2 > 0
                then c1 @ [CHR 0x0A, CHR 0x0A] @ join '' '' tags2 else c1);
          cc = length c2;
          wc = length (split_re is_space c2);
          eng = (if cc < 100 then Low
                 else if cc > 100 \<and> cc < 250 then High
                 else if cc > 250 then Medium
                 else Medium)
      in \<lparr> content = c2,
           hashtags = map strip_hash tags2,
           metadata = \<lparr> platform = ''twitter'', characterCount = cc, wordCount = wc,
                        estimatedEngagement = eng,
                        suggestions = twitter_generateSuggestions c2 ctx \<rparr> \<rparr>)"

definition twitter_slopPhrases :: "string list" where
  "twitter_slopPhrases =
     [''delve'', ''unlock the power'', ''game-changer'', ''revolutionize'', ''in conclusion'',
      ''in summary'', ''it's important to note'', ''tapestry'', ''landscape'', ''realm'',
      ''leverage'', ''synergy'']"

definition twitter_over_limit :: string where
  "twitter_over_limit = ''Content exceeds Twitter's 280 character limit''"

definition twitter_validate :: "string \<Rightarrow> ValidationResult" where
  "twitter_validate c =
     (let errors0 = ([] :: string list); warnings0 = ([] :: string list); score0 = (10 :: real);
          over = (length c > twitter_CHAR_LIMIT);
          errors1 = (if over then errors0 @ [twitter_over_limit] else errors0);
          score1 = (if over then score0 - 3 else score0);
          short = (length c < 50);
          warnings1 = (if short
                       then warnings0 @ [''Content is very short. Consider adding more value.'']
                       else warnings0);
          score2 = (if short then score1 - 1 else score1);
          lowerContent = toLowerCase c;
          foundSlop = filter (\<lambda>phrase. includes_str lowerContent phrase) twitter_slopPhrases;
          warnings2 = (if length foundSlop > 0
                       then warnings1 @ [''AI slop detected: '' @ [CHR 0x22]
                              @ join ([CHR 0x22] @ '', '' @ [CHR 0x22]) foundSlop
                              @ [CHR 0x22] @ ''. Consider rewriting.'']
                       else warnings1);
          score3 = (if length foundSlop > 0 then score2 - real (length foundSlop) else score2);
          hashtagCount = count_char (CHR ''#'') c;
          warnings3 = (if hashtagCount > 3
                       then warnings2 @ [''Too many hashtags. 1-2 hashtags perform better.'']
                       else warnings2);
          score4 = (if hashtagCount > 3 then score3 - 1 else score3);
          hasQuestion = has_question c;
          hasNumbers = has_digit c;
          warnings4 = (if \<not> hasQuestion \<and> length c > 100
                       then warnings3 @ [''Consider ending with a question to boost engagement.'']
                       else warnings3);
          score5 = (if hasNumbers then score4 + 1 else score4)
      in \<lparr> isValid = (length errors1 = 0), errors = errors1, warnings = warnings4,
           score = clamp10 score5 \<rparr>)"

definition twitter_postProcess :: "string \<Rightarrow> string" where
  "twitter_postProcess c =
     (let p1 = strip_label [''Tweet'', ''Thread''] c;
          p2 = strip_quotes p1;
          p3 = trim p2;
          p4 = replace_runs is_space 1 '' '' p3;
          p5 = replace_runs is_bang 3 ''!'' p4;
          p6 = replace_runs is_qmark 2 ''?'' p5
      in p6)"

subsection \<open>LinkedInStrategy\<close>

definition linkedin_CHAR_LIMIT :: nat where
  "linkedin_CHAR_LIMIT = 3000"

definition linkedin_OPTIMAL_MIN_LENGTH :: nat where
  "linkedin_OPTIMAL_MIN_LENGTH = 1300"

definition linkedin_OPTIMAL_MAX_LENGTH :: nat where
  "linkedin_OPTIMAL_MAX_LENGTH = 2000"

definition linkedin_MIN_LENGTH :: nat where
  "linkedin_MIN_LENGTH = 150"

definition linkedin_HOOK_CHAR_LIMIT :: nat where
  "linkedin_HOOK_CHAR_LIMIT = 210"

definition linkedin_RECOMMENDED_min :: nat where
  "linkedin_RECOMMENDED_min = 3"

definition linkedin_RECOMMENDED_max :: nat where
  "linkedin_RECOMMENDED_max = 5"

definition linkedin_MAX_HASHTAGS :: nat where
  "linkedin_MAX_HASHTAGS = 7"

definition linkedinSlop :: "string list" where
  "linkedinSlop =
     [''thrilled to announce'', ''honored and humbled'', ''i'm excited to share'',
      ''blessed and grateful'', ''thoughts?'', ''agree?'', ''delve'', ''unlock'',
      ''game-changer'', ''revolutionize'', ''game changer'', ''paradigm shift'', ''synergy'',
      ''leverage'', ''circle back'', ''touch base'', ''low-hanging fruit'',
      ''move the needle'', ''drink the kool-aid'']"

definition linkedin_getConstraints :: PlatformConstraints where
  "linkedin_getConstraints =
     \<lparr> maxLength = linkedin_CHAR_LIMIT, minLength = linkedin_MIN_LENGTH,
       maxHashtags = linkedin_RECOMMENDED_max, supportsThreads = False,
       supportsMedia = True, characterLimit = linkedin_CHAR_LIMIT \<rparr>"

definition linkedin_generalHashtags :: "string list" where
  "linkedin_generalHashtags = [''#Leadership'', ''#ProfessionalDevelopment'', ''#CareerGrowth'']"

function linkedin_fill :: "nat \<Rightarrow> string list \<Rightarrow> string list" where
  \<comment> \<open>the \<^verbatim>\<open>while\<close> loop of \<^verbatim>\<open>generateHashtags\<close>; the first argument is
      \<^verbatim>\<open>words.length\<close>. An index outside the array reads \<^verbatim>\<open>undefined\<close> and
      leaves the loop.\<close>
  "linkedin_fill nwords hs =
     (if length hs < linkedin_RECOMMENDED_min then
        (let i = int (length hs) - int nwords
         in if 0 \<le> i \<and> nat i < length linkedin_generalHashtags
               \<and> linkedin_generalHashtags ! nat i \<noteq> []
               \<and> linkedin_generalHashtags ! nat i \<notin> set hs
            then linkedin_fill nwords (hs @ [linkedin_generalHashtags ! nat i])
            else hs)
      else hs)"
  by pat_completeness auto
termination
  by (relation "measure (\<lambda>(n, hs). linkedin_RECOMMENDED_min - length hs)") auto

declare linkedin_fill.simps [simp del]

definition linkedin_commonWords :: "string list" where
  "linkedin_commonWords =
     [''the'', ''a'', ''an'', ''and'', ''or'', ''but'', ''in'', ''on'', ''at'', ''to'', ''for'']"

definition linkedin_generateHashtags :: "string \<Rightarrow> string list" where
  "linkedin_generateHashtags tp =
     (let words = filter (\<lambda>w. length w > 3 \<and> w \<notin> set linkedin_commonWords)
                    (split_re is_space (toLowerCase tp));
          hashtags0 = map (\<lambda>w. ''#'' @ capitalize w) (take 3 words);
          hashtags1 = linkedin_fill (length words) hashtags0
      in take linkedin_RECOMMENDED_max hashtags1)"

definition is_term :: "char \<Rightarrow> bool" where
  \<comment> \<open>\<^verbatim>\<open>[.!?]\<close>\<close>
  "is_term c = (c = CHR ''.'' \<or> c = CHR ''!'' \<or> c = CHR ''?'')"

function match_sentences :: "string \<Rightarrow> string list" where
  \<comment> \<open>\<^verbatim>\<open>s.match(/[^.!?]+[.!?]+/g)\<close>, the empty list standing for \<^verbatim>\<open>null\<close>: each
      match is a maximal run of other characters with the run of terminators after it;
      text after the last terminator is in no match\<close>
  "match_sentences [] = []"
| "match_sentences (c # cs) =
     (if is_term c then match_sentences cs
      else (case dropWhile (\<lambda>x. \<not> is_term x) cs of
              [] \<Rightarrow> []
            | d # ds \<Rightarrow> ((c # takeWhile (\<lambda>x. \<not> is_term x) cs) @ d # takeWhile is_term ds)
                          # match_sentences (dropWhile is_term ds)))"
  by pat_completeness auto
termination
proof (relation "measure length")
  show "wf (measure (length :: string \<Rightarrow> nat))"
    by simp
next
  fix c :: char and cs :: string
  show "(cs, c # cs) \<in> measure length"
    by simp
next
  fix c :: char and cs :: string and d ds
  assume d: "dropWhile (\<lambda>x. \<not> is_term x) cs = d # ds"
  have "length (dropWhile is_term ds) \<le> length ds"
    by (rule length_dropWhile_le)
  moreover have "length (d # ds) \<le> length cs"
    unfolding d [symmetric] by (rule length_dropWhile_le)
  ultimately show "(dropWhile is_term ds, c # cs) \<in> measure length"
    by simp
qed

fun linkedin_breakLoop :: "nat \<Rightarrow> nat \<Rightarrow> string list \<Rightarrow> string \<times> nat \<Rightarrow> string \<times> nat" where
  \<comment> \<open>the \<^verbatim>\<open>forEach\<close> of \<^verbatim>\<open>optimizeLineBreaks\<close>: \<open>n\<close> is
      \<^verbatim>\<open>sentences.length\<close>, \<open>i\<close> the index, the state is
      \<^verbatim>\<open>(optimized, lineLength)\<close>\<close>
  "linkedin_breakLoop n i [] st = st"
| "linkedin_breakLoop n i (s # ss) (optimized, lineLength) =
     (let trimmed = trim s;
          lineLength1 = lineLength + length trimmed;
          optimized1 = optimized @ trimmed
      in if lineLength1 > 200 \<or> (i > 0 \<and> (i + 1) mod 2 = 0)
         then linkedin_breakLoop n (i + 1) ss (optimized1 @ [CHR 0x0A, CHR 0x0A], 0)
         else if i + 1 < n
         then linkedin_breakLoop n (i + 1) ss (optimized1 @ '' '', lineLength1)
         else linkedin_breakLoop n (i + 1) ss (optimized1, lineLength1))"

definition linkedin_optimizeLineBreaks :: "string \<Rightarrow> string" where
  "linkedin_optimizeLineBreaks c =
     (let existingBreaks = count_char (CHR 0x0A) c
      in if existingBreaks \<ge> 4 then c
         else
           (let ms = match_sentences c;
                sentences = (if ms = [] then [c] else ms)
            in if length sentences \<le> 2 then c
               else trim (fst (linkedin_breakLoop (length sentences) 0 sentences ([], 0)))))"

definition linkedin_hasCallToAction :: "string \<Rightarrow> bool" where
  "linkedin_hasCallToAction c =
     list_ex (\<lambda>p. test_ci p c)
       [''what do you think'', ''share your'', ''let me know'', ''drop a comment'',
        ''comment below'', ''connect with me'', ''follow for'', ''join the conversation'',
        ''what's your experience'', ''have you tried'']"

fun digits_then :: "string list \<Rightarrow> string \<Rightarrow> bool" where
  \<comment> \<open>\<^verbatim>\<open>/\d+(A|B)/.test(s)\<close> for literal alternatives that begin with no digit: a
      digit whose run of digits is followed by one of them\<close>
  "digits_then alts [] = False"
| "digits_then alts (c # cs) =
     ((is_digit c \<and> list_ex (\<lambda>a. starts_with_by (=) (dropWhile is_digit cs) a) alts)
      \<or> digits_then alts cs)"

definition linkedin_hasValueIndicators :: "string \<Rightarrow> bool" where
  "linkedin_hasValueIndicators c =
     (digits_then [''%''] c
      \<or> digits_then ['' years'', '' months'', '' weeks''] c
      \<or> list_ex (\<lambda>p. test_ci p c)
           [''learned'', ''discovered'', ''insight'', ''lesson'', ''strategy'', ''approach'',
            ''framework'', ''results'', ''data shows'', ''research'', ''analysis'',
            ''case study''])"

definition linkedin_generateSuggestions :: "string \<Rightarrow> ContentContext \<Rightarrow> string list" where
  "linkedin_generateSuggestions c ctx =
     (let hook = take linkedin_HOOK_CHAR_LIMIT c;
          lineBreaks = count_char (CHR 0x0A) c;
          hashtagCount = count_char (CHR ''#'') c
      in (if length c < linkedin_OPTIMAL_MIN_LENGTH
          then [''Expand to 1300-2000 characters for optimal engagement''] else [])
         @ (if \<not> includes_str hook ''?'' \<and> \<not> has_digit hook
            then [''Consider adding a question or specific number in your hook''] else [])
         @ (if lineBreaks < 3 \<and> length c > 500
            then [''Add more line breaks for better readability''] else [])
         @ (if \<not> linkedin_hasCallToAction c
            then [''Add a call-to-action to encourage comments and engagement''] else [])
         @ (if \<not> has_digit c
            then [''Include specific numbers, data, or metrics to add credibility''] else [])
         @ (if \<not> linkedin_hasValueIndicators c
            then [''Add concrete insights, lessons learned, or professional experiences'']
            else [])
         @ (if hashtagCount = 0 \<and> truthy (includeHashtags ctx)
            then [''Add 3-5 relevant hashtags''] else []))"

definition linkedin_optimize :: "string \<Rightarrow> ContentContext \<Rightarrow> OptimizedContent" where
  "linkedin_optimize c ctx =
     (let c0 = trim c;
          foundHashtags = match_hashtags c0;
          c1 = (if length foundHashtags > 0 then trim (remove_hashtags c0) else c0);
          tags1 = (if length foundHashtags > 0
                   then take linkedin_RECOMMENDED_max foundHashtags else []);
          tags2 = (if truthy (includeHashtags ctx) \<and> length tags1 = 0
                   then tags1 @ take linkedin_RECOMMENDED_max
                                  (linkedin_generateHashtags (topic ctx))
                   else tags1);
          c2 = linkedin_optimizeLineBreaks c1;
          c3 = (if length tags2 > 0
                then c2 @ [CHR 0x0A, CHR 0x0A] @ join '' '' tags2 else c2);
          cc = length c3;
          wc = length (split_re is_space c3);
          eng = (if cc < linkedin_MIN_LENGTH * 2 then Low
                 else if cc \<ge> linkedin_OPTIMAL_MIN_LENGTH \<and> cc \<le> linkedin_OPTIMAL_MAX_LENGTH
                 then High
                 else if cc > linkedin_OPTIMAL_MAX_LENGTH then Medium
                 else Medium)
      in \<lparr> content = c3,
           hashtags = map strip_hash tags2,
           metadata = \<lparr> platform = ''linkedin'', characterCount = cc, wordCount = wc,
                        estimatedEngagement = eng,
                        suggestions = linkedin_generateSuggestions c3 ctx \<rparr> \<rparr>)"

definition linkedin_over_limit :: string where
  "linkedin_over_limit = ''Content exceeds LinkedIn's 3000 character limit''"

definition linkedin_genericOpenings :: "string list" where
  "linkedin_genericOpenings =
     [''in today's'', ''in this post'', ''let me share'', ''i want to talk about'']"

definition linkedin_validate :: "string \<Rightarrow> ValidationResult" where
  "linkedin_validate c =
     (let errors0 = ([] :: string list); warnings0 = ([] :: string list); score0 = (10 :: real);
          over = (length c > linkedin_CHAR_LIMIT);
          errors1 = (if over then errors0 @ [linkedin_over_limit] else errors0);
          score1 = (if over then score0 - 3 else score0);
          short = (length c < linkedin_MIN_LENGTH);
          errors2 = (if short
                     then errors1 @ [''Content is too short (minimum 150 characters for LinkedIn)'']
                     else errors1);
          score2 = (if short then score1 - 2 else score1);
          warnings1 =
            (if length c < linkedin_OPTIMAL_MIN_LENGTH
             then warnings0 @ [''Content is short. Consider expanding to 1300-2000 characters for better engagement.'']
             else if length c > linkedin_OPTIMAL_MAX_LENGTH
             then warnings0 @ [''Content is long. Posts between 1300-2000 characters tend to perform better.'']
             else warnings0);
          score3 = (if length c < linkedin_OPTIMAL_MIN_LENGTH then score2 - 0.5
                    else if length c > linkedin_OPTIMAL_MAX_LENGTH then score2 - 0.5
                    else score2);
          hook = take linkedin_HOOK_CHAR_LIMIT c;
          warnings2 =
            (if length hook < 100
             then warnings1 @ [''Hook might be too short. First 210 characters appear before ''
                               @ [CHR 0x22] @ ''see more'' @ [CHR 0x22] @ ''.'']
             else warnings1);
          score4 = (if length hook < 100 then score3 - 0.5 else score3);
          generic = list_ex (\<lambda>p. test_start_ci p hook) linkedin_genericOpenings;
          warnings3 = (if generic
                       then warnings2 @ [''Consider a stronger hook. Avoid generic openings.'']
                       else warnings2);
          score5 = (if generic then score4 - 0.5 else score4);
          lowerContent = toLowerCase c;
          foundSlop = filter (\<lambda>phrase. includes_str lowerContent phrase) linkedinSlop;
          warnings4 = (if length foundSlop > 0
                       then warnings3 @ [''LinkedIn AI slop detected: '' @ [CHR 0x22]
                              @ join ([CHR 0x22] @ '', '' @ [CHR 0x22]) foundSlop
                              @ [CHR 0x22] @ ''. Rewrite for authenticity.'']
                       else warnings3);
          score6 = (if length foundSlop > 0 then score5 - real (length foundSlop) * 0.5
                    else score5);
          hashtagCount = count_char (CHR ''#'') c;
          warnings5 =
            (if hashtagCount > linkedin_MAX_HASHTAGS
             then warnings4 @ [''Too many hashtags ('' @ show_nat hashtagCount
                               @ ''). 3-5 hashtags perform best.'']
             else if hashtagCount < linkedin_RECOMMENDED_min \<and> hashtagCount > 0
             then warnings4 @ [''Consider adding more hashtags (3-5 recommended).'']
             else warnings4);
          score7 = (if hashtagCount > linkedin_MAX_HASHTAGS then score6 - 1 else score6);
          lineBreaks = count_char (CHR 0x0A) c;
          wall = (length c > 500 \<and> lineBreaks < 3);
          warnings6 =
            (if wall
             then warnings5 @ [''Add line breaks for readability. LinkedIn posts perform better with white space.'']
             else warnings5);
          score8 = (if wall then score7 - 1 else score7);
          hasQuestion = has_question c;
          hasNumbers = has_digit c;
          hasCallToAction = linkedin_hasCallToAction c;
          warnings7 =
            (if \<not> hasQuestion \<and> \<not> hasCallToAction
             then warnings6 @ [''Consider adding a question or call-to-action to boost engagement.'']
             else warnings6);
          score9 = (if \<not> hasQuestion \<and> \<not> hasCallToAction then score8 - 0.5 else score8);
          score10 = (if hasNumbers then score9 + 0.5 else score9);
          hasValueIndicators = linkedin_hasValueIndicators c;
          warnings8 =
            (if \<not> hasValueIndicators
             then warnings7 @ [''Consider adding specific insights, data, or professional lessons.'']
             else warnings7);
          score11 = (if \<not> hasValueIndicators then score10 - 1 else score10);
          score12 = (if lineBreaks \<ge> 4 \<and> lineBreaks \<le> 10 then score11 + 0.5 else score11)
      in \<lparr> isValid = (length errors2 = 0), errors = errors2, warnings = warnings8,
           score = clamp10 score12 \<rparr>)"

definition is_punct :: "char \<Rightarrow> bool" where
  \<comment> \<open>\<^verbatim>\<open>[.,!?]\<close>\<close>
  "is_punct c = (c = CHR ''.'' \<or> c = CHR '','' \<or> c = CHR ''!'' \<or> c = CHR ''?'')"

function unspace_punct :: "string \<Rightarrow> string" where
  \<comment> \<open>\<^verbatim>\<open>s.replace(/\s+([.,!?])/g, '$1')\<close>: a run of white space goes when a
      punctuation character follows it\<close>
  "unspace_punct [] = []"
| "unspace_punct (c # cs) =
     (if is_space c then
        (case dropWhile is_space cs of
           [] \<Rightarrow> c # cs
         | d # ds \<Rightarrow> if is_punct d then d # unspace_punct ds
                     else (c # takeWhile is_space cs) @ d # unspace_punct ds)
      else c # unspace_punct cs)"
  by pat_completeness auto
termination
proof (relation "measure length")
  show "wf (measure (length :: string \<Rightarrow> nat))"
    by simp
next
  fix c :: char and cs :: string and d ds
  assume d: "dropWhile is_space cs = d # ds"
  have "length (d # ds) \<le> length cs"
    unfolding d [symmetric] by (rule length_dropWhile_le)
  then show "(ds, c # cs) \<in> measure length"
    by simp
next
  fix c :: char and cs :: string and d ds
  assume d: "dropWhile is_space cs = d # ds"
  have "length (d # ds) \<le> length cs"
    unfolding d [symmetric] by (rule length_dropWhile_le)
  then show "(ds, c # cs) \<in> measure length"
    by simp
next
  fix c :: char and cs :: string
  show "(cs, c # cs) \<in> measure length"
    by simp
qed

fun space_punct :: "string \<Rightarrow> string" where
  \<comment> \<open>\<^verbatim>\<open>s.replace(/([.,!?])([A-Za-z])/g, '$1 $2')\<close>\<close>
  "space_punct (a # b # cs) =
     (if is_punct a \<and> is_letter b then a # CHR '' '' # b # space_punct cs
      else a # space_punct (b # cs))"
| "space_punct cs = cs"

definition linkedin_postProcess :: "string \<Rightarrow> ContentContext \<Rightarrow> string" where
  "linkedin_postProcess c ctx =
     (let p1 = strip_label [''LinkedIn Post'', ''Post''] c;
          p2 = strip_quotes p1;
          p3 = trim p2;
          p4 = replace_runs is_newline 3 [CHR 0x0A, CHR 0x0A] p3;
          p5 = replace_runs is_bang 3 ''!'' p4;
          p6 = replace_runs is_qmark 2 ''?'' p5;
          p7 = replace_runs is_dot 3 ''...'' p6;
          p8 = unspace_punct p7;
          p9 = space_punct p8
      in p9)"

section \<open>ContentValidatorService\<close>

text \<open>
  The quality scorer. JavaScript numbers are modelled as real numbers: the scores are
  computed in exact arithmetic, and the rounding of floating point is left out.
\<close>

record QualityScore =
  overall :: real
  authenticity :: real
  engagement :: real
  clarity :: real
  platform_fit :: real

record Issues =
  critical :: "string list"
  issue_warnings :: "string list"
  issue_suggestions :: "string list"

record Metrics =
  readabilityScore :: real
  sentenceVariety :: real
  aiSlopCount :: nat
  engagementElements :: "string list"

record ContentQualityResult =
  quality :: QualityScore
  issues :: Issues
  metrics :: Metrics

definition AI_SLOP_PHRASES :: "string list" where
  "AI_SLOP_PHRASES =
     [''delve'', ''delve into'', ''unlock the power'', ''unlock'', ''game-changer'',
      ''game changer'', ''revolutionize'', ''in conclusion'', ''in summary'', ''to summarize'',
      ''it's important to note'', ''it is important to note'', ''tapestry'', ''landscape'',
      ''realm'', ''leverage'', ''synergy'', ''paradigm shift'', ''cutting-edge'',
      ''state-of-the-art'', ''best practices'', ''world-class'', ''robust'', ''seamless'',
      ''holistic'', ''innovative'', ''disruptive'', ''transformative'',
      ''at the end of the day'', ''think outside the box'', ''low-hanging fruit'',
      ''move the needle'', ''deep dive'']"

definition CORPORATE_JARGON :: "string list" where
  "CORPORATE_JARGON =
     [''circle back'', ''touch base'', ''synergize'', ''drill down'', ''bandwidth'',
      ''take it offline'', ''run it up the flagpole'', ''boil the ocean'',
      ''drinking from the fire hose'']"

definition detectAISlop :: "string \<Rightarrow> string list" where
  "detectAISlop c =
     (let lowerContent = toLowerCase c
      in filter (\<lambda>phrase. includes_str lowerContent (toLowerCase phrase)) AI_SLOP_PHRASES)"

definition detectCorporateJargon :: "string \<Rightarrow> string list" where
  "detectCorporateJargon c =
     (let lowerContent = toLowerCase c
      in filter (\<lambda>jargon. includes_str lowerContent (toLowerCase jargon)) CORPORATE_JARGON)"

fun line_starts :: "string \<Rightarrow> string list" where
  \<comment> \<open>what follows each line terminator: with the whole string, the places where
      \<^verbatim>\<open>^\<close> matches under the m flag\<close>
  "line_starts [] = []"
| "line_starts (c # cs) = (if is_line_end c then [cs] else []) @ line_starts cs"

definition list_marker :: "string \<Rightarrow> bool" where
  \<comment> \<open>\<^verbatim>\<open>(\d+\.|[-\<bullet>])\<close> at the start of the string; the bullet U+2022 is no code
      unit below 256\<close>
  "list_marker s =
     ((takeWhile is_digit s \<noteq> [] \<and> starts_with_by (=) (dropWhile is_digit s) ''.'')
      \<or> starts_with_by (=) s ''-'')"

definition test_listFormat :: "string \<Rightarrow> bool" where
  \<comment> \<open>\<^verbatim>\<open>/^(\d+\.|[-\<bullet>])/m.test(s)\<close>\<close>
  "test_listFormat s = list_ex list_marker (s # line_starts s)"

definition word_here :: "string list \<Rightarrow> string \<Rightarrow> bool" where
  \<comment> \<open>one of the alternatives starts the string and a word boundary follows it\<close>
  "word_here alts s =
     list_ex (\<lambda>w. starts_with_by ci_eq s w
                \<and> (case drop (length w) s of [] \<Rightarrow> True | d # ds \<Rightarrow> \<not> is_word d)) alts"

fun test_words_from :: "string list \<Rightarrow> bool \<Rightarrow> string \<Rightarrow> bool" where
  \<comment> \<open>the flag says that the character before is a word character\<close>
  "test_words_from alts prev [] = False"
| "test_words_from alts prev (c # cs) =
     ((\<not> prev \<and> word_here alts (c # cs)) \<or> test_words_from alts (is_word c) cs)"

definition test_words :: "string list \<Rightarrow> string \<Rightarrow> bool" where
  \<comment> \<open>\<^verbatim>\<open>/\b(A|B)\b/i.test(s)\<close> for alternatives that begin and end with a letter\<close>
  "test_words alts s = test_words_from alts False s"

definition ENGAGEMENT_ELEMENTS :: "(string \<times> (string \<Rightarrow> bool)) list" where
  "ENGAGEMENT_ELEMENTS =
     [(''question'', has_question),
      (''numbers'', has_digit),
      (''listFormat'', test_listFormat),
      (''hook'', \<lambda>s. list_ex (\<lambda>p. test_start_ci p s)
                      [''Stop'', ''Start'', ''Here's'', ''I spent'', ''The biggest'']),
      (''actionWord'', test_words [''learn'', ''discover'', ''create'', ''build'', ''avoid'',
                                   ''start'', ''stop''])]"

definition detectEngagementElements :: "string \<Rightarrow> string list" where
  "detectEngagementElements c = map fst (filter (\<lambda>(element, regex). regex c) ENGAGEMENT_ELEMENTS)"

definition is_vowel :: "char \<Rightarrow> bool" where
  \<comment> \<open>\<^verbatim>\<open>[aeiouy]\<close>\<close>
  "is_vowel c = (c \<in> set ''aeiouy'')"

fun count_runs :: "(char \<Rightarrow> bool) \<Rightarrow> string \<Rightarrow> nat" where
  \<comment> \<open>\<^verbatim>\<open>(s.match(/C+/g) || []).length\<close>: the number of maximal runs of \<open>C\<close>, counted
      where each run ends\<close>
  "count_runs P [] = 0"
| "count_runs P [c] = (if P c then 1 else 0)"
| "count_runs P (a # b # cs) = (if P a \<and> \<not> P b then 1 else 0) + count_runs P (b # cs)"

definition word_syllables :: "string \<Rightarrow> int" where
  \<comment> \<open>the body of the loop of \<^verbatim>\<open>countSyllables\<close>\<close>
  "word_syllables w =
     (let syllables0 = int (count_runs is_vowel w);
          syllables1 = (if w \<noteq> [] \<and> last w = CHR ''e'' then syllables0 - 1 else syllables0)
      in max 1 syllables1)"

definition countSyllables :: "string \<Rightarrow> int" where
  "countSyllables text =
     (let words = split_re is_space (toLowerCase text)
      in foldl (\<lambda>totalSyllables w. totalSyllables + word_syllables w) 0 words)"

definition sentences_of :: "string \<Rightarrow> string list" where
  \<comment> \<open>\<^verbatim>\<open>content.split(/[.!?]+/).filter((s) => s.trim().length > 0)\<close>\<close>
  "sentences_of c = filter (\<lambda>s. length (trim s) > 0) (split_re is_term c)"

definition calculateReadability :: "string \<Rightarrow> real" where
  "calculateReadability c =
     (let sentences = sentences_of c;
          words = filter (\<lambda>w. length w > 0) (split_re is_space c);
          syllables = countSyllables c
      in if length sentences = 0 \<or> length words = 0 then 0
         else
           (let avgWordsPerSentence = real (length words) / real (length sentences);
                avgSyllablesPerWord = real_of_int syllables / real (length words);
                score = 206.835 - 1.015 * avgWordsPerSentence - 84.6 * avgSyllablesPerWord
            in max 0 (min 100 score)))"

definition calculateSentenceVariety :: "string \<Rightarrow> real" where
  "calculateSentenceVariety c =
     (let sentences = sentences_of c
      in if length sentences < 2 then 1
         else
           (let lengths = map (\<lambda>s. real (length (split_re is_space (trim s)))) sentences;
                mean = foldl (\<lambda>a b. a + b) 0 lengths / real (length lengths);
                variance = foldl (\<lambda>sum len. sum + (len - mean) ^ 2) 0 lengths
                             / real (length lengths);
                stdDev = sqrt variance
            in if mean > 0 then stdDev / mean else 0))"

definition isGeneric :: "string \<Rightarrow> bool" where
  "isGeneric c =
     (let genericPhrases =
            [''many people'', ''it is well known'', ''everyone knows'', ''as we all know'',
             ''generally speaking'', ''in today's world'', ''in this day and age''];
          lowerContent = toLowerCase c;
          genericCount = length (filter (\<lambda>phrase. includes_str lowerContent phrase) genericPhrases);
          hasNumbers = has_digit c;
          hasSpecifics = test_words [''because'', ''example'', ''specifically'', ''for instance''] c
      in genericCount > 0 \<or> (\<not> hasNumbers \<and> \<not> hasSpecifics \<and> length c > 100))"

definition js_round :: "real \<Rightarrow> real" where
  \<comment> \<open>\<^verbatim>\<open>Math.round\<close>: the nearest integer, a half going up\<close>
  "js_round x = real_of_int \<lfloor>x + 1 / 2\<rfloor>"

definition calculateQualityScore ::
  "string \<Rightarrow> nat \<Rightarrow> nat \<Rightarrow> nat \<Rightarrow> real \<Rightarrow> real \<Rightarrow> QualityScore" where
  "calculateQualityScore c slopCount jargonCount engagementCount readability variety =
     (let authenticity0 = 10 - real slopCount * 2 - real jargonCount;
          authenticity1 = max 0 (min 10 authenticity0);
          engagement0 = min 10 (real engagementCount * 3);
          engagement1 = (if isGeneric c then max 0 (engagement0 - 3) else engagement0);
          clarity1 = min 10 (readability / 10);
          platform1 = min 10 (variety * 10 + 5);
          overall1 = authenticity1 * 0.3 + engagement1 * 0.3 + clarity1 * 0.2 + platform1 * 0.2
      in \<lparr> overall = js_round (overall1 * 10) / 10,
           authenticity = js_round (authenticity1 * 10) / 10,
           engagement = js_round (engagement1 * 10) / 10,
           clarity = js_round (clarity1 * 10) / 10,
           platform_fit = js_round (platform1 * 10) / 10 \<rparr>)"

definition validateContent :: "string \<Rightarrow> ContentQualityResult" where
  "validateContent c =
     (let slopFound = detectAISlop c;
          warnings1 = (if length slopFound > 0
                       then [''AI slop detected: '' @ [CHR 0x22]
                             @ join ([CHR 0x22] @ '', '' @ [CHR 0x22]) slopFound
                             @ [CHR 0x22] @ ''. Consider rewriting for authenticity.'']
                       else []);
          jargonFound = detectCorporateJargon c;
          warnings2 = (if length jargonFound > 0
                       then warnings1 @ [''Corporate jargon found: '' @ [CHR 0x22]
                             @ join ([CHR 0x22] @ '', '' @ [CHR 0x22]) jargonFound
                             @ [CHR 0x22] @ ''. Use plain language.'']
                       else warnings1);
          elements = detectEngagementElements c;
          suggestions1 = (if length elements = 0
                          then [''Add engagement elements: questions, numbers, or action words.'']
                          else []);
          readability = calculateReadability c;
          warnings3 = (if readability < 60
                       then warnings2 @ [''Content is hard to read. Simplify sentences and use shorter words.'']
                       else warnings2);
          variety = calculateSentenceVariety c;
          suggestions2 = (if variety < 0.3
                          then suggestions1 @ [''Vary sentence length for better flow.'']
                          else suggestions1);
          critical1 = (if isGeneric c
                       then [''Content is too generic. Add specific examples, data, or insights.'']
                       else []);
          sc = calculateQualityScore c (length slopFound) (length jargonFound) (length elements)
                 readability variety
      in \<lparr> quality = sc,
           issues = \<lparr> critical = critical1, issue_warnings = warnings3,
                      issue_suggestions = suggestions2 \<rparr>,
           metrics = \<lparr> readabilityScore = readability, sentenceVariety = variety,
                       aiSlopCount = length slopFound, engagementElements = elements \<rparr> \<rparr>)"

definition isAcceptableQuality :: "string \<Rightarrow> real \<Rightarrow> bool" where
  "isAcceptableQuality c minScore =
     (let result = validateContent c
      in overall (quality result) \<ge> minScore \<and> length (critical (issues result)) = 0)"

section \<open>PlatformOptimizerService\<close>

text \<open>
  A strategy object is the record of its methods. The prompt templates are long literal
  texts (those of Twitter hold arrows, code units above 255) whose result goes to the
  provider and is read by no operation of the core, so a strategy takes its
  \<^verbatim>\<open>generatePrompt\<close> as an argument and every property holds for any template.
\<close>

record PlatformStrategy =
  getPlatformName :: string
  getConstraints :: PlatformConstraints
  optimize :: "string \<Rightarrow> ContentContext \<Rightarrow> OptimizedContent"
  validate :: "string \<Rightarrow> ValidationResult"
  generatePrompt :: "ContentContext \<Rightarrow> string"
  postProcess :: "string \<Rightarrow> ContentContext \<Rightarrow> string"

definition TwitterStrategy :: "(ContentContext \<Rightarrow> string) \<Rightarrow> PlatformStrategy" where
  "TwitterStrategy prompt =
     \<lparr> getPlatformName = ''twitter'', getConstraints = twitter_getConstraints,
       optimize = twitter_optimize, validate = twitter_validate, generatePrompt = prompt,
       postProcess = (\<lambda>c ctx. twitter_postProcess c) \<rparr>"

definition LinkedInStrategy :: "(ContentContext \<Rightarrow> string) \<Rightarrow> PlatformStrategy" where
  "LinkedInStrategy prompt =
     \<lparr> getPlatformName = ''linkedin'', getConstraints = linkedin_getConstraints,
       optimize = linkedin_optimize, validate = linkedin_validate, generatePrompt = prompt,
       postProcess = linkedin_postProcess \<rparr>"

record PlatformOptimizerService =
  twitterStrategy :: PlatformStrategy
  linkedinStrategy :: PlatformStrategy

definition strategies :: "PlatformOptimizerService \<Rightarrow> (string \<rightharpoonup> PlatformStrategy)" where
  \<comment> \<open>the Map filled by the constructor\<close>
  "strategies po = [''twitter'' \<mapsto> twitterStrategy po, ''linkedin'' \<mapsto> linkedinStrategy po]"

definition getStrategy :: "PlatformOptimizerService \<Rightarrow> string \<Rightarrow> PlatformStrategy" where
  "getStrategy po pf =
     (case strategies po (toLowerCase pf) of
        None \<Rightarrow> twitterStrategy po
      | Some strategy \<Rightarrow> strategy)"





definition getPlatformConstraints :: "PlatformOptimizerService \<Rightarrow> string \<Rightarrow> PlatformConstraints" where
  "getPlatformConstraints po pf = getConstraints (getStrategy po pf)"

section \<open>ContentGeneratorService\<close>

text \<open>
  The provider is the only collaborator outside the core. It is a function on a state of
  its own, so that two calls with one prompt may answer differently, and it returns either
  a \<^verbatim>\<open>ProviderError\<close> (the rejected promise) or a result. The run of
  \<^verbatim>\<open>generateContent\<close> records, in order, each call of the provider and each
  post-processing.
\<close>

record GenerationOptions =
  temperature :: "real option"
  maxTokens :: "nat option"
  topP :: "real option"
  frequencyPenalty :: "real option"
  presencePenalty :: "real option"
  stopSequences :: "string list option"








datatype Event = Generate string GenerationOptions | PostProcess string










fun is_PostProcess :: "Event \<Rightarrow> bool" where
  "is_PostProcess (Generate p opts) = False"
| "is_PostProcess (PostProcess c) = True"

section \<open>Predicates and specification-level notions used by the properties\<close>


definition starts_in :: "(char \<Rightarrow> bool) \<Rightarrow> string \<Rightarrow> bool" where
  \<comment> \<open>the string begins with a character of the class\<close>
  "starts_in P s = (case s of [] \<Rightarrow> False | c # cs \<Rightarrow> P c)"

definition trimmed :: "string \<Rightarrow> bool" where
  \<comment> \<open>no white space at either end\<close>
  "trimmed s = (s = [] \<or> (\<not> is_space (hd s) \<and> \<not> is_space (last s)))"

definition has_label :: "string list \<Rightarrow> string \<Rightarrow> bool" where
  \<comment> \<open>the string begins with one of the role labels and a colon, in any case\<close>
  "has_label labels s = list_ex (\<lambda>l. test_start_ci (l @ '':'') s) labels"

definition has_outer_quote :: "string \<Rightarrow> bool" where
  \<comment> \<open>the string begins or ends with a quote character\<close>
  "has_outer_quote s = (s \<noteq> [] \<and> (is_quote (hd s) \<or> is_quote (last s)))"

fun has_run :: "(char \<Rightarrow> bool) \<Rightarrow> nat \<Rightarrow> string \<Rightarrow> bool" where
  \<comment> \<open>somewhere in the string, at least \<open>k\<close> characters of the class in a row\<close>
  "has_run P k [] = False"
| "has_run P k (c # cs) = (k \<le> length (takeWhile P (c # cs)) \<or> has_run P k cs)"

fun has_adjacent :: "(char \<Rightarrow> bool) \<Rightarrow> (char \<Rightarrow> bool) \<Rightarrow> string \<Rightarrow> bool" where
  \<comment> \<open>somewhere in the string, a character of the first class right before one of the
      second\<close>
  "has_adjacent A B (a # b # cs) = ((A a \<and> B b) \<or> has_adjacent A B (b # cs))"
| "has_adjacent A B cs = False"

definition spec_word_count :: "string \<Rightarrow> nat" where
  \<comment> \<open>the words of a sentence: its maximal runs of characters that are no white space\<close>
  "spec_word_count s = count_runs (\<lambda>c. \<not> is_space c) s"

definition spec_mean :: "real list \<Rightarrow> real" where
  "spec_mean xs = sum_list xs / real (length xs)"

definition spec_std_dev :: "real list \<Rightarrow> real" where
  \<comment> \<open>the standard deviation of the whole population\<close>
  "spec_std_dev xs = sqrt (sum_list (map (\<lambda>x. (x - spec_mean xs) ^ 2) xs) / real (length xs))"

definition spec_coefficient_of_variation :: "real list \<Rightarrow> real" where
  "spec_coefficient_of_variation xs = spec_std_dev xs / spec_mean xs"

section \<open>Example inputs\<close>

definition example_context :: ContentContext where
  "example_context =
     \<lparr> topic = ''teamwork'', tone = None, targetAudience = None, includeHashtags = None,
       includeEmojis = None, callToAction = None, format = None \<rparr>"






definition no_prompt :: "ContentContext \<Rightarrow> string" where
  \<comment> \<open>a prompt template that renders nothing\<close>
  "no_prompt ctx = []"

definition example_service :: PlatformOptimizerService where
  "example_service =
     \<lparr> twitterStrategy = TwitterStrategy no_prompt,
       linkedinStrategy = LinkedInStrategy no_prompt \<rparr>"

section \<open>Validity and the hashtag cap\<close>

text \<open>
  Claim C8. For both strategies, the result of \<^verbatim>\<open>validate\<close> is invalid exactly
  when at least one error was accumulated; the warnings play no part.
\<close>

theorem validate_invalid_iff_errors:
  "(\<not> isValid (twitter_validate c) \<longleftrightarrow> errors (twitter_validate c) \<noteq> [])
   \<and> (\<not> isValid (linkedin_validate c) \<longleftrightarrow> errors (linkedin_validate c) \<noteq> [])"
  by (simp add: twitter_validate_def linkedin_validate_def Let_def)

text \<open>A short tweet: one warning, no error, and the result is valid.\<close>

theorem validate_invalid_iff_errors_witness:
  "warnings (twitter_validate ''hi'') \<noteq> [] \<and> errors (twitter_validate ''hi'') = []
   \<and> isValid (twitter_validate ''hi'')"
  using validate_invalid_iff_errors [of "''hi''"]
  by (simp add: twitter_validate_def Let_def twitter_CHAR_LIMIT_def)

text \<open>
  Claim C6. For every content and context, \<^verbatim>\<open>optimize\<close> returns at most the
  platform's \<^verbatim>\<open>maxHashtags\<close> hashtags: 2 for Twitter and 5 for LinkedIn, as
  \<^verbatim>\<open>getConstraints\<close> reports them.
\<close>

theorem optimize_hashtags_capped:
  "length (hashtags (twitter_optimize c ctx)) \<le> maxHashtags twitter_getConstraints
   \<and> maxHashtags twitter_getConstraints = 2
   \<and> length (hashtags (linkedin_optimize c ctx)) \<le> maxHashtags linkedin_getConstraints
   \<and> maxHashtags linkedin_getConstraints = 5"
  by (simp add: twitter_optimize_def linkedin_optimize_def Let_def twitter_getConstraints_def
      linkedin_getConstraints_def twitter_MAX_HASHTAGS_def linkedin_RECOMMENDED_max_def)

section \<open>The registry\<close>

lemma toLowerCase_twitter: "toLowerCase ''twitter'' = ''twitter''"
  by (simp add: toLowerCase_def lower_char_def)

lemma toLowerCase_linkedin: "toLowerCase ''linkedin'' = ''linkedin''"
  by (simp add: toLowerCase_def lower_char_def)

text \<open>
  Claim C9. The lookup depends on the identifier only through its lower-case form, so it
  matches the registered names whatever the case of the letters; an identifier that
  matches no registered name gives the Twitter strategy. The lookup is a total function:
  it always returns one of the two registered strategies.
\<close>

theorem getStrategy_case_insensitive_with_fallback:
  "(toLowerCase pf = toLowerCase pf' \<longrightarrow> getStrategy po pf = getStrategy po pf')
   \<and> (toLowerCase pf = toLowerCase ''twitter'' \<longrightarrow> getStrategy po pf = twitterStrategy po)
   \<and> (toLowerCase pf = toLowerCase ''linkedin'' \<longrightarrow> getStrategy po pf = linkedinStrategy po)
   \<and> (toLowerCase pf \<noteq> ''twitter'' \<and> toLowerCase pf \<noteq> ''linkedin''
        \<longrightarrow> getStrategy po pf = twitterStrategy po)
   \<and> (getStrategy po pf = twitterStrategy po \<or> getStrategy po pf = linkedinStrategy po)"
  by (auto simp: getStrategy_def strategies_def toLowerCase_twitter toLowerCase_linkedin)

lemma toLowerCase_examples:
  "toLowerCase ''LinkedIn'' = ''linkedin''"
  "toLowerCase ''LINKEDIN'' = ''linkedin''"
  "toLowerCase ''TwItTeR'' = ''twitter''"
  "toLowerCase ''mastodon'' = ''mastodon''"
  by code_simp+

theorem getStrategy_case_insensitive_with_fallback_witness:
  "getStrategy example_service ''LinkedIn'' = getStrategy example_service ''LINKEDIN''
   \<and> getStrategy example_service ''TwItTeR'' = twitterStrategy example_service
   \<and> getStrategy example_service ''LinkedIn'' = linkedinStrategy example_service
   \<and> getStrategy example_service ''mastodon'' = twitterStrategy example_service
   \<and> getStrategy example_service [] = twitterStrategy example_service"
proof -
  note th = getStrategy_case_insensitive_with_fallback
  have "getStrategy example_service ''LinkedIn'' = getStrategy example_service ''LINKEDIN''"
    using th [of "''LinkedIn''" "''LINKEDIN''" example_service]
    by (simp add: toLowerCase_examples)
  moreover have "getStrategy example_service ''TwItTeR'' = twitterStrategy example_service"
    using th [of "''TwItTeR''" "''TwItTeR''" example_service]
    by (simp add: toLowerCase_examples toLowerCase_twitter)
  moreover have "getStrategy example_service ''LinkedIn'' = linkedinStrategy example_service"
    using th [of "''LinkedIn''" "''LinkedIn''" example_service]
    by (simp add: toLowerCase_examples toLowerCase_linkedin)
  moreover have "getStrategy example_service ''mastodon'' = twitterStrategy example_service"
    using th [of "''mastodon''" "''mastodon''" example_service]
    by (simp add: toLowerCase_examples)
  moreover have "getStrategy example_service [] = twitterStrategy example_service"
    using th [of "[]" "[]" example_service]
    by (simp add: toLowerCase_def)
  ultimately show ?thesis
    by simp
qed

section \<open>Texts over the character limit\<close>

lemma a300_slop:
  "filter (\<lambda>phrase. includes_str (toLowerCase (replicate 300 (CHR ''a''))) phrase)
     twitter_slopPhrases = []"
  by code_simp

lemma a300_hash: "count_char (CHR ''#'') (replicate 300 (CHR ''a'')) = 0"
  by code_simp

lemma a300_digit: "\<not> has_digit (replicate 300 (CHR ''a''))"
  by code_simp

text \<open>
  Claim C7. A text longer than the platform's \<^verbatim>\<open>maxLength\<close> is invalid, carries
  the over-limit error, and its score is the baseline 10 less 3, adjusted by the checks
  that do not depend on the length and clamped (for LinkedIn the text is then also longer
  than the optimal range, which costs a further half point).
\<close>

theorem validate_over_limit:
  "(length c > maxLength twitter_getConstraints \<longrightarrow>
      \<not> isValid (twitter_validate c)
      \<and> twitter_over_limit \<in> set (errors (twitter_validate c))
      \<and> score (twitter_validate c) =
          clamp10 (10 - 3
            - real (length (filter (\<lambda>phrase. includes_str (toLowerCase c) phrase) twitter_slopPhrases))
            - (if count_char (CHR ''#'') c > 3 then 1 else 0)
            + (if has_digit c then 1 else 0)))
   \<and> (length c > maxLength linkedin_getConstraints \<longrightarrow>
      \<not> isValid (linkedin_validate c)
      \<and> linkedin_over_limit \<in> set (errors (linkedin_validate c))
      \<and> score (linkedin_validate c) =
          clamp10 (10 - 3 - 0.5
            - (if list_ex (\<lambda>p. test_start_ci p (take linkedin_HOOK_CHAR_LIMIT c)) linkedin_genericOpenings
               then 0.5 else 0)
            - real (length (filter (\<lambda>phrase. includes_str (toLowerCase c) phrase) linkedinSlop)) * 0.5
            - (if count_char (CHR ''#'') c > linkedin_MAX_HASHTAGS then 1 else 0)
            - (if count_char (CHR 0x0A) c < 3 then 1 else 0)
            - (if \<not> has_question c \<and> \<not> linkedin_hasCallToAction c then 0.5 else 0)
            + (if has_digit c then 0.5 else 0)
            - (if \<not> linkedin_hasValueIndicators c then 1 else 0)
            + (if count_char (CHR 0x0A) c \<ge> 4 \<and> count_char (CHR 0x0A) c \<le> 10 then 0.5 else 0)))"
proof (intro conjI impI)
  assume "length c > maxLength twitter_getConstraints"
  then have over: "length c > 280"
    by (simp add: twitter_getConstraints_def twitter_CHAR_LIMIT_def)
  show "\<not> isValid (twitter_validate c)"
    using over by (simp add: twitter_validate_def Let_def twitter_CHAR_LIMIT_def)
  show "twitter_over_limit \<in> set (errors (twitter_validate c))"
    using over by (simp add: twitter_validate_def Let_def twitter_CHAR_LIMIT_def)
  show "score (twitter_validate c) =
          clamp10 (10 - 3
            - real (length (filter (\<lambda>phrase. includes_str (toLowerCase c) phrase) twitter_slopPhrases))
            - (if count_char (CHR ''#'') c > 3 then 1 else 0)
            + (if has_digit c then 1 else 0))"
    using over by (simp add: twitter_validate_def Let_def twitter_CHAR_LIMIT_def)
next
  assume "length c > maxLength linkedin_getConstraints"
  then have over: "length c > 3000"
    by (simp add: linkedin_getConstraints_def linkedin_CHAR_LIMIT_def)
  show "\<not> isValid (linkedin_validate c)"
    using over by (simp add: linkedin_validate_def Let_def linkedin_CHAR_LIMIT_def)
  show "linkedin_over_limit \<in> set (errors (linkedin_validate c))"
    using over by (simp add: linkedin_validate_def Let_def linkedin_CHAR_LIMIT_def linkedin_MIN_LENGTH_def)
  have hook: "length (take linkedin_HOOK_CHAR_LIMIT c) = 210"
    using over by (simp add: linkedin_HOOK_CHAR_LIMIT_def)
  show "score (linkedin_validate c) =
          clamp10 (10 - 3 - 0.5
            - (if list_ex (\<lambda>p. test_start_ci p (take linkedin_HOOK_CHAR_LIMIT c)) linkedin_genericOpenings
               then 0.5 else 0)
            - real (length (filter (\<lambda>phrase. includes_str (toLowerCase c) phrase) linkedinSlop)) * 0.5
            - (if count_char (CHR ''#'') c > linkedin_MAX_HASHTAGS then 1 else 0)
            - (if count_char (CHR 0x0A) c < 3 then 1 else 0)
            - (if \<not> has_question c \<and> \<not> linkedin_hasCallToAction c then 0.5 else 0)
            + (if has_digit c then 0.5 else 0)
            - (if \<not> linkedin_hasValueIndicators c then 1 else 0)
            + (if count_char (CHR 0x0A) c \<ge> 4 \<and> count_char (CHR 0x0A) c \<le> 10 then 0.5 else 0))"
    using over hook
    by (simp add: linkedin_validate_def Let_def linkedin_CHAR_LIMIT_def linkedin_MIN_LENGTH_def
        linkedin_OPTIMAL_MIN_LENGTH_def linkedin_OPTIMAL_MAX_LENGTH_def)
qed

text \<open>Twitter on 300 letters a: invalid, the over-limit error, score 7.\<close>

theorem validate_over_limit_witness: "length (replicate 300 (CHR ''a'')) > maxLength twitter_getConstraints
  \<and> \<not> isValid (twitter_validate (replicate 300 (CHR ''a'')))
  \<and> twitter_over_limit \<in> set (errors (twitter_validate (replicate 300 (CHR ''a''))))
  \<and> score (twitter_validate (replicate 300 (CHR ''a''))) = 7"
  using validate_over_limit [of "replicate 300 (CHR ''a'')"]
  by (simp add: a300_slop a300_hash a300_digit twitter_getConstraints_def twitter_CHAR_LIMIT_def clamp10_def)

section \<open>The quality scorer\<close>







lemma js_round_bounds: "0 \<le> x \<Longrightarrow> x \<le> 10 \<Longrightarrow> 0 \<le> js_round (x * 10) / 10 \<and> js_round (x * 10) / 10 \<le> 10"
proof -
  assume a: "0 \<le> x" "x \<le> 10"
  have "\<lfloor>x * 10 + 1 / 2\<rfloor> \<le> 100"
  proof -
    have "x * 10 + 1 / 2 < 101" using a by simp
    then have "\<lfloor>x * 10 + 1 / 2\<rfloor> < 101" by (simp add: floor_less_iff)
    then show ?thesis by simp
  qed
  moreover have "0 \<le> \<lfloor>x * 10 + 1 / 2\<rfloor>"
    using a by simp
  ultimately show ?thesis
    by (simp add: js_round_def)
qed

lemma readability_range: "0 \<le> calculateReadability c \<and> calculateReadability c \<le> 100"
  by (simp add: calculateReadability_def Let_def)

lemma foldl_squares_ge: "a \<le> foldl (\<lambda>sum len. sum + (len - m) ^ 2) a (xs :: real list)"
proof (induction xs arbitrary: a)
  case Nil
  show ?case by simp
next
  case (Cons x xs)
  have "a \<le> a + (x - m) ^ 2" by simp
  also have "\<dots> \<le> foldl (\<lambda>sum len. sum + (len - m) ^ 2) (a + (x - m) ^ 2) xs"
    by (rule Cons.IH)
  finally show ?case by simp
qed

lemma sqrt_variance_nonneg:
  "0 \<le> sqrt (foldl (\<lambda>sum len. sum + (len - m) ^ 2) 0 (xs :: real list) / real n)"
  using foldl_squares_ge [of 0 m xs] by simp

lemma guarded_ratio_nonneg:
  fixes m s :: real
  assumes "0 \<le> s"
  shows "0 \<le> (if b then 1 else if 0 < m then s / m else 0)"
  using assms by simp

lemma variety_nonneg: "0 \<le> calculateSentenceVariety c"
  unfolding calculateSentenceVariety_def Let_def
  by (rule guarded_ratio_nonneg) (rule sqrt_variance_nonneg)

text \<open>
  Claim C1. For every text, each of the five fields of the quality score that
  \<^verbatim>\<open>validateContent\<close> returns lies between 0 and 10.
\<close>

theorem quality_score_range: "let q = quality (validateContent c) in
  0 \<le> overall q \<and> overall q \<le> 10 \<and> 0 \<le> authenticity q \<and> authenticity q \<le> 10
  \<and> 0 \<le> engagement q \<and> engagement q \<le> 10 \<and> 0 \<le> clarity q \<and> clarity q \<le> 10
  \<and> 0 \<le> platform_fit q \<and> platform_fit q \<le> 10"
proof -
  define r where "r = calculateReadability c"
  define v where "v = calculateSentenceVariety c"
  define a where "a = max 0 (min 10 (10 - real (length (detectAISlop c)) * 2 - real (length (detectCorporateJargon c))))"
  define e0 where "e0 = min 10 (real (length (detectEngagementElements c)) * 3)"
  define e where "e = (if isGeneric c then max 0 (e0 - 3) else e0)"
  define cl where "cl = min 10 (r / 10)"
  define p where "p = min 10 (v * 10 + 5)"
  have r: "0 \<le> r" "r \<le> 100" using readability_range [of c] by (simp_all add: r_def)
  have v: "0 \<le> v" using variety_nonneg [of c] by (simp add: v_def)
  have a: "0 \<le> a" "a \<le> 10" by (simp_all add: a_def)
  have e0: "0 \<le> e0" "e0 \<le> 10" by (simp_all add: e0_def)
  have e: "0 \<le> e" "e \<le> 10" using e0 by (auto simp: e_def)
  have cl: "0 \<le> cl" "cl \<le> 10" using r by (simp_all add: cl_def)
  have p: "0 \<le> p" "p \<le> 10" using v by (simp_all add: p_def)
  define ov where "ov = a * 0.3 + e * 0.3 + cl * 0.2 + p * 0.2"
  have ov: "0 \<le> ov" "ov \<le> 10" using a e cl p by (simp_all add: ov_def)
  have q: "quality (validateContent c) = \<lparr> overall = js_round (ov * 10) / 10,
           authenticity = js_round (a * 10) / 10,
           engagement = js_round (e * 10) / 10,
           clarity = js_round (cl * 10) / 10,
           platform_fit = js_round (p * 10) / 10 \<rparr>"
    by (simp add: validateContent_def calculateQualityScore_def Let_def ov_def a_def e_def e0_def cl_def p_def r_def v_def)
  show ?thesis
    unfolding q Let_def
    using js_round_bounds [OF ov] js_round_bounds [OF a] js_round_bounds [OF e] js_round_bounds [OF cl] js_round_bounds [OF p]
    by simp
qed

section \<open>The orchestrator\<close>






section \<open>Runs of characters and their replacement\<close>

lemma starts_in_simps [simp]:
  "starts_in P [] = False" "starts_in P (c # cs) = P c"
  by (simp_all add: starts_in_def)

lemma starts_in_dropWhile [simp]: "\<not> starts_in P (dropWhile P s)"
  by (induction s) auto

lemma takeWhile_run_append:
  "list_all P u \<Longrightarrow> \<not> starts_in P t \<Longrightarrow> takeWhile P (u @ t) = u"
  by (induction u) (auto simp: starts_in_def split: list.splits)

lemma dropWhile_run_append:
  "list_all P u \<Longrightarrow> \<not> starts_in P t \<Longrightarrow> dropWhile P (u @ t) = t"
  by (induction u) (auto simp: starts_in_def split: list.splits)

lemma replace_runs_skip:
  "list_all (\<lambda>c. \<not> P c) u \<Longrightarrow> replace_runs P k r (u @ t) = u @ replace_runs P k r t"
  by (induction u) auto

lemma replace_runs_run:
  assumes "u \<noteq> []" "list_all P u" "\<not> starts_in P t"
  shows "replace_runs P k r (u @ t) = (if k \<le> length u then r else u) @ replace_runs P k r t"
proof -
  obtain c u' where u: "u = c # u'"
    using assms(1) by (cases u) auto
  have "list_all P u'" "P c"
    using assms(2) by (simp_all add: u)
  then show ?thesis
    using assms(3) by (simp add: u takeWhile_run_append dropWhile_run_append)
qed

lemma starts_in_replace_same:
  "\<not> starts_in P s \<Longrightarrow> \<not> starts_in P (replace_runs P k r s)"
  by (cases s) auto

lemma starts_in_replace_other:
  assumes "\<forall>c. \<not> (P c \<and> Q c)" "r \<noteq> []" "list_all Q r"
  shows "starts_in P (replace_runs Q k r s) = starts_in P s"
proof (cases s)
  case Nil
  then show ?thesis by simp
next
  case (Cons c cs)
  obtain d r' where r: "r = d # r'"
    using assms(2) by (cases r) auto
  have "Q d" using assms(3) by (simp add: r)
  then have "\<not> P d" using assms(1) by blast
  then show ?thesis
    using assms(1) by (auto simp: Cons r)
qed

text \<open>A replacement applied twice is the replacement applied once.\<close>

lemma replace_runs_idem:
  assumes "r \<noteq> []" "list_all P r"
  shows "replace_runs P k r (replace_runs P k r s) = replace_runs P k r s"
  using assms
proof (induction P k r s rule: replace_runs.induct)
  case (1 P k r)
  show ?case by simp
next
  case (2 P k r c cs)
  show ?case
  proof (cases "P c")
    case False
    with 2 show ?thesis by simp
  next
    case True
    let ?run = "c # takeWhile P cs"
    let ?piece = "if k \<le> Suc (length (takeWhile P cs)) then r else ?run"
    let ?rest = "replace_runs P k r (dropWhile P cs)"
    have piece: "?piece \<noteq> []" "list_all P ?piece"
      using True "2.prems" by (auto simp: list_all_iff dest: set_takeWhileD)
    have rest: "\<not> starts_in P ?rest"
      by (rule starts_in_replace_same) simp
    have "replace_runs P k r (?piece @ ?rest)
            = (if k \<le> length ?piece then r else ?piece) @ replace_runs P k r ?rest"
      by (rule replace_runs_run [OF piece rest])
    also have "(if k \<le> length ?piece then r else ?piece) = ?piece"
      by auto
    also have "replace_runs P k r ?rest = ?rest"
      using "2.IH" (1) [OF True] "2.prems" by simp
    finally show ?thesis
      using True by simp
  qed
qed

lemma list_all_run: "P c \<Longrightarrow> list_all P (c # takeWhile P cs)"
  by (auto simp: list_all_iff dest: set_takeWhileD)

lemma list_all_other: "\<forall>c. \<not> (P c \<and> Q c) \<Longrightarrow> list_all P u \<Longrightarrow> list_all (\<lambda>c. \<not> Q c) u"
  by (auto simp: list_all_iff)

lemma replace_runs_commute_lead:
  assumes disj: "\<forall>c. \<not> (P c \<and> Q c)"
    and r: "r \<noteq> []" "list_all P r"
    and r': "r' \<noteq> []" "list_all Q r'"
    and c: "P c"
    and IH: "replace_runs P k r (replace_runs Q k' r' (dropWhile P cs))
               = replace_runs Q k' r' (replace_runs P k r (dropWhile P cs))"
  shows "replace_runs P k r (replace_runs Q k' r' (c # cs))
           = replace_runs Q k' r' (replace_runs P k r (c # cs))"
proof -
  let ?run = "c # takeWhile P cs"
  let ?rest = "dropWhile P cs"
  let ?piece = "if k \<le> length ?run then r else ?run"
  have run: "?run \<noteq> []" "list_all P ?run"
    using list_all_run [of P c cs, OF c] by simp_all
  have piece: "list_all P ?piece"
    using run r by simp
  have s: "c # cs = ?run @ ?rest"
    by simp
  have "replace_runs Q k' r' (c # cs) = ?run @ replace_runs Q k' r' ?rest"
    unfolding s by (rule replace_runs_skip) (rule list_all_other [OF disj run(2)])
  moreover have "\<not> starts_in P (replace_runs Q k' r' ?rest)"
    by (simp add: starts_in_replace_other [OF disj r'])
  ultimately have lhs: "replace_runs P k r (replace_runs Q k' r' (c # cs))
      = ?piece @ replace_runs P k r (replace_runs Q k' r' ?rest)"
    using replace_runs_run [OF run] by simp
  have "replace_runs P k r (c # cs) = ?piece @ replace_runs P k r ?rest"
    using c by simp
  then have rhs: "replace_runs Q k' r' (replace_runs P k r (c # cs))
      = ?piece @ replace_runs Q k' r' (replace_runs P k r ?rest)"
    using replace_runs_skip [OF list_all_other [OF disj piece]] by simp
  show ?thesis
    unfolding lhs rhs IH ..
qed

text \<open>Replacements on disjoint classes, each putting characters of its own class, commute.\<close>

lemma replace_runs_commute:
  assumes disj: "\<forall>c. \<not> (P c \<and> Q c)"
    and r: "r \<noteq> []" "list_all P r"
    and r': "r' \<noteq> []" "list_all Q r'"
  shows "replace_runs P k r (replace_runs Q k' r' s)
           = replace_runs Q k' r' (replace_runs P k r s)"
proof (induction "length s" arbitrary: s rule: less_induct)
  case less
  show ?case
  proof (cases s)
    case Nil
    then show ?thesis by simp
  next
    case (Cons c cs)
    have shorter: "length (dropWhile R cs) < length s" for R
      using length_dropWhile_le [of R cs] by (simp add: Cons)
    have disj': "\<forall>c. \<not> (Q c \<and> P c)"
      using disj by blast
    consider (p) "P c" | (q) "Q c" | (none) "\<not> P c" "\<not> Q c"
      by blast
    then show ?thesis
    proof cases
      case p
      show ?thesis
        unfolding Cons
        by (rule replace_runs_commute_lead [OF disj r r' p]) (rule less [OF shorter])
    next
      case q
      show ?thesis
        unfolding Cons
        by (rule replace_runs_commute_lead [OF disj' r' r q, symmetric])
           (rule less [OF shorter, symmetric])
    next
      case none
      then show ?thesis
        using less [of cs] by (simp add: Cons)
    qed
  qed
qed

lemma has_adjacent_Cons:
  "has_adjacent A B (a # t) = ((A a \<and> starts_in B t) \<or> has_adjacent A B t)"
  by (cases t) auto



lemma class_facts:
  "\<forall>c. \<not> (is_bang c \<and> is_space c)" "\<forall>c. \<not> (is_qmark c \<and> is_space c)"
  "\<forall>c. \<not> (is_space c \<and> is_bang c)" "\<forall>c. \<not> (is_space c \<and> is_qmark c)"
  "\<forall>c. \<not> (is_bang c \<and> is_qmark c)" "\<forall>c. \<not> (is_qmark c \<and> is_bang c)"
  "is_space (CHR '' '')" "is_bang (CHR ''!'')" "is_qmark (CHR ''?'')"
  "\<not> is_space (CHR ''!'')" "\<not> is_space (CHR ''?'')" "\<not> is_space (CHR ''.'')"
  "is_space (CHR 0x0A)"
  by (auto simp: is_bang_def is_qmark_def is_space_def)


section \<open>Post-processing for Twitter\<close>




section \<open>Idempotence of post-processing\<close>

subsection \<open>Trimmed strings\<close>

lemma last_dropWhile: "dropWhile P xs \<noteq> [] \<Longrightarrow> last (dropWhile P xs) = last xs"
  by (induction xs) (auto split: if_splits)

lemma trimmed_trim: "trimmed (trim s)"
proof (cases "trim s = []")
  case True
  then show ?thesis by (simp add: trimmed_def)
next
  case False
  let ?s' = "dropWhile is_space s"
  let ?d = "dropWhile is_space (rev ?s')"
  have d: "?d \<noteq> []"
    using False by (simp add: trim_def)
  have s': "?s' \<noteq> []"
  proof
    assume a: "?s' = []"
    have "?d = []" unfolding a by simp
    with d show False ..
  qed
  have "\<not> is_space (hd ?d)"
    using d by (rule hd_dropWhile)
  then have l: "\<not> is_space (last (trim s))"
    using d by (simp add: trim_def last_rev)
  have "last ?d = last (rev ?s')"
    using d by (rule last_dropWhile)
  then have "hd (trim s) = hd ?s'"
    using d s' by (simp add: trim_def hd_rev last_rev)
  moreover have "\<not> is_space (hd ?s')"
    using s' by (rule hd_dropWhile)
  ultimately show ?thesis
    using l by (simp add: trimmed_def)
qed

lemma trim_trimmed: "trimmed s \<Longrightarrow> trim s = s"
proof (cases s)
  case Nil
  then show ?thesis by (simp add: trim_def)
next
  case (Cons c cs)
  assume "trimmed s"
  then have h: "\<not> is_space c" and l: "\<not> is_space (last s)"
    by (simp_all add: trimmed_def Cons)
  have "dropWhile is_space s = s"
    using h by (simp add: Cons)
  moreover have "dropWhile is_space (rev s) = rev s"
  proof -
    obtain a as where r: "rev s = a # as"
      using Cons by (cases "rev s") auto
    have "a = last s"
      using hd_rev [of s] r by simp
    then show ?thesis
      using l by (simp add: r)
  qed
  ultimately show ?thesis
    by (simp add: trim_def)
qed

lemma replace_runs_first:
  assumes "s \<noteq> []" "\<not> is_space (hd s)"
    and "(\<forall>c. P c \<longrightarrow> is_space c) \<or> (r \<noteq> [] \<and> \<not> is_space (hd r))"
  shows "replace_runs P k r s \<noteq> [] \<and> \<not> is_space (hd (replace_runs P k r s))"
proof -
  obtain c cs where s: "s = c # cs"
    using assms(1) by (cases s) auto
  show ?thesis
    using assms(2,3) by (auto simp: s)
qed

lemma replace_runs_last:
  assumes "s \<noteq> []" "\<not> is_space (last s)"
    and "(\<forall>c. P c \<longrightarrow> is_space c) \<or> (r \<noteq> [] \<and> \<not> is_space (last r))"
  shows "replace_runs P k r s \<noteq> [] \<and> \<not> is_space (last (replace_runs P k r s))"
  using assms
proof (induction P k r s rule: replace_runs.induct)
  case (1 P k r)
  then show ?case by simp
next
  case (2 P k r c cs)
  show ?case
  proof (cases "P c")
    case True
    show ?thesis
    proof (cases "dropWhile P cs = []")
      case True
      then have every: "\<forall>x \<in> set cs. P x"
        by simp
      have tw: "takeWhile P cs = cs" and dw: "dropWhile P cs = []"
        using every by simp_all
      have "P (last (c # cs))"
        using \<open>P c\<close> every by simp
      then have r: "r \<noteq> [] \<and> \<not> is_space (last r)"
        using "2.prems" by auto
      have "replace_runs P k r (c # cs) = (if k \<le> Suc (length cs) then r else c # cs)"
        using \<open>P c\<close> by (simp add: tw dw)
      then show ?thesis
        using r "2.prems" (2) by (simp del: replace_runs.simps)
    next
      case False
      have "last (c # cs) = last (dropWhile P cs)"
        using False by (metis last_ConsR last_dropWhile dropWhile.simps(1))
      then show ?thesis
        using \<open>P c\<close> False "2.IH" (1) [OF \<open>P c\<close> False] "2.prems" by simp
    qed
  next
    case False
    then show ?thesis
      using "2.IH" (2) [OF False] "2.prems" by (cases cs) auto
  qed
qed

lemma trimmed_replace_runs:
  assumes "trimmed s"
    and "(\<forall>c. P c \<longrightarrow> is_space c)
         \<or> (r \<noteq> [] \<and> \<not> is_space (hd r) \<and> \<not> is_space (last r))"
  shows "trimmed (replace_runs P k r s)"
proof (cases "s = []")
  case True
  then show ?thesis by (simp add: trimmed_def)
next
  case False
  then have "\<not> is_space (hd s)" "\<not> is_space (last s)"
    using assms(1) by (simp_all add: trimmed_def)
  then show ?thesis
    using replace_runs_first [OF False, of P r k] replace_runs_last [OF False, of P r k] assms(2)
    by (auto simp: trimmed_def)
qed

lemma strip_label_none: "\<not> has_label labels s \<Longrightarrow> strip_label labels s = s"
proof -
  assume "\<not> has_label labels s"
  then have "find (\<lambda>l. test_start_ci (l @ '':'') s) labels = None"
    by (simp add: has_label_def find_None_iff list_ex_iff)
  then show ?thesis
    by (simp add: strip_label_def)
qed

lemma strip_quotes_none: "\<not> has_outer_quote s \<Longrightarrow> strip_quotes s = s"
  by (cases s) (auto simp: has_outer_quote_def strip_quotes_def Let_def)

lemma twitter_normal_form:
  defines "C \<equiv> \<lambda>s. replace_runs is_qmark 2 ''?''
                      (replace_runs is_bang 3 ''!'' (replace_runs is_space 1 '' '' s))"
  assumes "trimmed t"
  shows "trimmed (C t)" and "C (C t) = C t"
proof -
  let ?S = "replace_runs is_space 1 '' ''"
  let ?B = "replace_runs is_bang 3 ''!''"
  let ?Q = "replace_runs is_qmark 2 ''?''"
  have SB: "?B (?S s) = ?S (?B s)" for s
    by (rule replace_runs_commute) (simp_all add: class_facts)
  have SQ: "?Q (?S s) = ?S (?Q s)" for s
    by (rule replace_runs_commute) (simp_all add: class_facts)
  have BQ: "?Q (?B s) = ?B (?Q s)" for s
    by (rule replace_runs_commute) (simp_all add: class_facts)
  have S: "?S (?S s) = ?S s" for s
    by (rule replace_runs_idem) (simp_all add: class_facts)
  have B: "?B (?B s) = ?B s" for s
    by (rule replace_runs_idem) (simp_all add: class_facts)
  have Q: "?Q (?Q s) = ?Q s" for s
    by (rule replace_runs_idem) (simp_all add: class_facts)
  have "trimmed (?S t)"
    using assms(2) by (rule trimmed_replace_runs) (simp add: class_facts)
  then have "trimmed (?B (?S t))"
    by (rule trimmed_replace_runs) (simp add: class_facts)
  then have "trimmed (?Q (?B (?S t)))"
    by (rule trimmed_replace_runs) (simp add: class_facts)
  then show "trimmed (C t)"
    unfolding C_def .
  have 1: "?S (?Q (?B (?S t))) = ?Q (?B (?S t))"
    by (simp only: SB SQ S)
  have 2: "?B (?Q (?B (?S t))) = ?Q (?B (?S t))"
    by (simp only: BQ B)
  show "C (C t) = C t"
    unfolding C_def by (simp only: 1 2 Q)
qed

lemma twitter_postProcess_fixed:
  assumes "\<not> has_label [''Tweet'', ''Thread''] (twitter_postProcess x)"
    and "\<not> has_outer_quote (twitter_postProcess x)"
  shows "twitter_postProcess (twitter_postProcess x) = twitter_postProcess x"
proof -
  let ?C = "\<lambda>s. replace_runs is_qmark 2 ''?''
                 (replace_runs is_bang 3 ''!'' (replace_runs is_space 1 '' '' s))"
  let ?t = "trim (strip_quotes (strip_label [''Tweet'', ''Thread''] x))"
  have y: "twitter_postProcess x = ?C ?t"
    unfolding twitter_postProcess_def Let_def ..
  have t: "trimmed ?t"
    by (rule trimmed_trim)
  have a: "strip_label [''Tweet'', ''Thread''] (?C ?t) = ?C ?t"
    using assms(1) unfolding y by (rule strip_label_none)
  have b: "strip_quotes (?C ?t) = ?C ?t"
    using assms(2) unfolding y by (rule strip_quotes_none)
  have c: "trim (?C ?t) = ?C ?t"
    using twitter_normal_form(1) [OF t] by (rule trim_trimmed)
  have d: "?C (?C ?t) = ?C ?t"
    using twitter_normal_form(2) [OF t] .
  have "twitter_postProcess (?C ?t) = ?C (trim (strip_quotes (strip_label [''Tweet'', ''Thread''] (?C ?t))))"
    unfolding twitter_postProcess_def Let_def ..
  also have "\<dots> = ?C ?t"
    by (simp only: a b c d)
  finally show ?thesis
    unfolding y .
qed

subsection \<open>Strings without a long run\<close>

lemma has_run_dropWhile: "has_run P k (dropWhile Q s) \<Longrightarrow> has_run P k s"
  by (induction s) (auto split: if_splits)

lemma has_run_run_append:
  assumes "list_all P u" "\<not> starts_in P t" "0 < k"
  shows "has_run P k (u @ t) = (k \<le> length u \<or> has_run P k t)"
  using assms(1)
proof (induction u)
  case Nil
  then show ?case using assms(3) by simp
next
  case (Cons a u)
  then have "takeWhile P (u @ t) = u"
    using assms(2) by (simp add: takeWhile_run_append)
  then show ?case
    using Cons by auto
qed

lemma has_run_sep:
  assumes "\<not> P d" "0 < k"
  shows "has_run P k (u @ d # t) = (has_run P k u \<or> has_run P k t)"
proof (induction u)
  case Nil
  then show ?case using assms by simp
next
  case (Cons a u)
  have "takeWhile P (u @ d # t) = takeWhile P u"
    using assms(1) by (rule takeWhile_tail)
  then show ?case
    using Cons by auto
qed

text \<open>A string without a run to replace is left as it is.\<close>

lemma replace_runs_no_run: "\<not> has_run P k s \<Longrightarrow> replace_runs P k r s = s"
proof (induction P k r s rule: replace_runs.induct)
  case (1 P k r)
  show ?case by simp
next
  case (2 P k r c cs)
  show ?case
  proof (cases "P c")
    case True
    have "\<not> has_run P k (dropWhile P cs)"
      using "2.prems" has_run_dropWhile [of P k P cs] by auto
    then have "replace_runs P k r (dropWhile P cs) = dropWhile P cs"
      by (rule "2.IH" (1) [OF True])
    then show ?thesis
      using True "2.prems" by simp
  next
    case False
    then show ?thesis
      using "2.IH" (2) [OF False] "2.prems" by simp
  qed
qed

lemma replace_runs_exact_run:
  assumes "\<forall>c. P c \<longrightarrow> c = ch" "r = replicate k ch" "\<not> has_run P (Suc k) s"
  shows "replace_runs P k r s = s"
  using assms
proof (induction P k r s rule: replace_runs.induct)
  case (1 P k r)
  show ?case by simp
next
  case (2 P k r c cs)
  show ?case
  proof (cases "P c")
    case True
    have "\<not> has_run P (Suc k) (dropWhile P cs)"
      using "2.prems" (3) has_run_dropWhile [of P "Suc k" P cs] by auto
    then have rest: "replace_runs P k r (dropWhile P cs) = dropWhile P cs"
      using "2.IH" (1) [OF True] "2.prems" (1,2) by simp
    have short: "length (takeWhile P cs) < k"
      using "2.prems" (3) True by simp
    have "\<forall>x \<in> set (c # takeWhile P cs). x = ch"
      using True "2.prems" (1) by (auto dest: set_takeWhileD)
    then have "c # takeWhile P cs = replicate (Suc (length (takeWhile P cs))) ch"
      by (metis length_Cons replicate_length_same)
    then have "k \<le> Suc (length (takeWhile P cs)) \<Longrightarrow> r = c # takeWhile P cs"
      using short "2.prems" (2) by (simp add: le_Suc_eq)
    then show ?thesis
      using True rest by auto
  next
    case False
    then show ?thesis
      using "2.IH" (2) [OF False] "2.prems" by simp
  qed
qed

text \<open>After a replacement by a shorter string no run of the replaced length is left.\<close>

lemma replace_runs_leaves_no_run:
  assumes "r \<noteq> []" "list_all P r" "length r < k"
  shows "\<not> has_run P k (replace_runs P k r s)"
  using assms
proof (induction P k r s rule: replace_runs.induct)
  case (1 P k r)
  show ?case by simp
next
  case (2 P k r c cs)
  show ?case
  proof (cases "P c")
    case True
    let ?piece = "if k \<le> Suc (length (takeWhile P cs)) then r else c # takeWhile P cs"
    let ?rest = "replace_runs P k r (dropWhile P cs)"
    have piece: "list_all P ?piece" "length ?piece < k"
      using True "2.prems" by (auto simp: list_all_iff dest: set_takeWhileD)
    have rest: "\<not> starts_in P ?rest"
      by (rule starts_in_replace_same) simp
    have "has_run P k (?piece @ ?rest) = (k \<le> length ?piece \<or> has_run P k ?rest)"
      using piece(1) rest by (rule has_run_run_append) (use "2.prems" in simp)
    then show ?thesis
      using True piece(2) "2.IH" (1) [OF True] "2.prems" by (simp del: has_run.simps)
  next
    case False
    have "0 < k" using "2.prems" by simp
    then show ?thesis
      using False "2.IH" (2) [OF False] "2.prems" by simp
  qed
qed

subsection \<open>Spacing around punctuation\<close>

lemma punct_facts:
  "is_punct c \<Longrightarrow> \<not> is_space c" "is_punct c \<Longrightarrow> \<not> is_newline c"
  "is_punct c \<Longrightarrow> \<not> is_letter c"
  "is_letter c \<Longrightarrow> \<not> is_space c" "is_letter c \<Longrightarrow> \<not> is_newline c"
  "is_newline c \<Longrightarrow> is_space c"
  "\<not> is_punct (CHR '' '')" "\<not> is_newline (CHR '' '')" "\<not> is_letter (CHR '' '')"
  "is_space (CHR '' '')"
  by (auto simp: is_punct_def is_space_def is_newline_def is_letter_def Let_def)

lemma unspace_punct_space:
  "is_space c \<Longrightarrow> unspace_punct (c # cs) =
     (case dropWhile is_space cs of
        [] \<Rightarrow> c # cs
      | d # ds \<Rightarrow> if is_punct d then d # unspace_punct ds
                  else (c # takeWhile is_space cs) @ d # unspace_punct ds)"
  by simp

lemma leading_spaces: "dropWhile is_space cs = d # ds \<Longrightarrow> cs = takeWhile is_space cs @ d # ds"
  by (metis takeWhile_dropWhile_id)

lemma leading_spaces_stop: "dropWhile is_space cs = d # ds \<Longrightarrow> \<not> is_space d"
  by (metis hd_dropWhile list.distinct(1) list.sel(1))

lemma unspace_punct_keeps_no_run:
  assumes "\<forall>c. P c \<longrightarrow> is_space c" "0 < k"
  shows "\<not> has_run P k s \<Longrightarrow> \<not> has_run P k (unspace_punct s)"
proof (induction s rule: unspace_punct.induct)
  case 1
  show ?case by simp
next
  case (2 c cs)
  show ?case
  proof (cases "is_space c")
    case False
    then have "\<not> P c" using assms(1) by blast
    then show ?thesis
      using False "2.IH" (3) [OF False] "2.prems" assms(2) by simp
  next
    case True
    show ?thesis
    proof (cases "dropWhile is_space cs")
      case Nil
      have "unspace_punct (c # cs) = c # cs"
        using True by (simp only: unspace_punct_space Nil list.case)
      then show ?thesis
        using "2.prems" by (simp only: simp_thms)
    next
      case (Cons d ds)
      have d: "\<not> is_space d"
        using Cons by (rule leading_spaces_stop)
      then have nP: "\<not> P d" using assms(1) by blast
      note sep = has_run_sep [of P d k, OF nP assms(2)]
      have s: "c # cs = (c # takeWhile is_space cs) @ d # ds"
        using leading_spaces [OF Cons] by simp
      have split: "has_run P k (c # cs)
                     = (has_run P k (c # takeWhile is_space cs) \<or> has_run P k ds)"
        by (subst s) (rule sep)
      then have ds: "\<not> has_run P k ds" and w: "\<not> has_run P k (c # takeWhile is_space cs)"
        using "2.prems" by simp_all
      show ?thesis
      proof (cases "is_punct d")
        case True
        have "\<not> has_run P k (unspace_punct ds)"
          using ds by (rule "2.IH" (1) [OF \<open>is_space c\<close> Cons True])
        then have "\<not> has_run P k (d # unspace_punct ds)"
          using nP assms(2) by simp
        moreover have "unspace_punct (c # cs) = d # unspace_punct ds"
          using \<open>is_space c\<close> True by (simp only: unspace_punct_space Cons list.case if_True)
        ultimately show ?thesis
          by (simp only: simp_thms)
      next
        case False
        have "\<not> has_run P k (unspace_punct ds)"
          using ds by (rule "2.IH" (2) [OF \<open>is_space c\<close> Cons False])
        then have "\<not> has_run P k ((c # takeWhile is_space cs) @ d # unspace_punct ds)"
          using w by (simp only: sep simp_thms)
        moreover have "unspace_punct (c # cs)
                         = (c # takeWhile is_space cs) @ d # unspace_punct ds"
          using \<open>is_space c\<close> False by (simp only: unspace_punct_space Cons list.case if_False)
        ultimately show ?thesis
          by (simp only: simp_thms)
      qed
    qed
  qed
qed

lemma takeWhile_space_punct:
  assumes "\<forall>c. P c \<longrightarrow> \<not> is_punct c"
  shows "takeWhile P (space_punct s) = takeWhile P s"
  using assms by (induction s rule: space_punct.induct) auto

lemma space_punct_keeps_no_run:
  assumes "\<forall>c. P c \<longrightarrow> \<not> is_punct c \<and> \<not> is_letter c \<and> c \<noteq> CHR '' ''" "0 < k"
  shows "\<not> has_run P k s \<Longrightarrow> \<not> has_run P k (space_punct s)"
proof (induction s rule: space_punct.induct)
  case (1 a b cs)
  have tw: "takeWhile P (space_punct (b # cs)) = takeWhile P (b # cs)"
    using assms(1) by (intro takeWhile_space_punct) blast
  show ?case
  proof (cases "is_punct a \<and> is_letter b")
    case True
    then have "\<not> P a" "\<not> P b" "\<not> P (CHR '' '')"
      using assms(1) by blast+
    then show ?thesis
      using True "1.IH" (1) [OF True] "1.prems" assms(2) by simp
  next
    case False
    have "\<not> has_run P k (space_punct (b # cs))"
      using "1.IH" (2) [OF False] "1.prems" by simp
    moreover have "\<not> k \<le> length (takeWhile P (a # b # cs))"
      using "1.prems" by simp
    moreover have "space_punct (a # b # cs) = a # space_punct (b # cs)"
      using False by auto
    moreover have "takeWhile P (a # space_punct (b # cs)) = takeWhile P (a # b # cs)"
      using tw by (simp del: space_punct.simps)
    ultimately show ?thesis
      by (simp only: has_run.simps simp_thms)
  qed
qed simp_all

lemma has_adjacent_none: "\<forall>x \<in> set u. \<not> B x \<Longrightarrow> \<not> has_adjacent A B u"
  by (induction A B u rule: has_adjacent.induct) auto

lemma has_adjacent_split:
  "has_adjacent A B (u @ d # t) = (has_adjacent A B (u @ [d]) \<or> has_adjacent A B (d # t))"
  by (induction A B u rule: has_adjacent.induct) (auto simp: has_adjacent_Cons)

lemma has_adjacent_last: "u \<noteq> [] \<Longrightarrow> A (last u) \<Longrightarrow> B d \<Longrightarrow> has_adjacent A B (u @ [d])"
  by (induction A B u rule: has_adjacent.induct) (auto simp: has_adjacent_Cons)

lemma starts_in_space_punct [simp]: "starts_in B (space_punct s) = starts_in B s"
  by (cases s rule: space_punct.cases) auto

lemma unspace_punct_result: "\<not> has_adjacent is_space is_punct (unspace_punct s)"
proof (induction s rule: unspace_punct.induct)
  case 1
  show ?case by simp
next
  case (2 c cs)
  show ?case
  proof (cases "is_space c")
    case False
    then show ?thesis
      using "2.IH" (3) [OF False] by (simp add: has_adjacent_Cons)
  next
    case True
    show ?thesis
    proof (cases "dropWhile is_space cs")
      case Nil
      then have "\<forall>x \<in> set (c # cs). \<not> is_punct x"
        using True punct_facts(1) by auto
      then have "\<not> has_adjacent is_space is_punct (c # cs)"
        by (rule has_adjacent_none)
      moreover have "unspace_punct (c # cs) = c # cs"
        using True by (simp only: unspace_punct_space Nil list.case)
      ultimately show ?thesis
        by (simp only: simp_thms)
    next
      case (Cons d ds)
      have d: "\<not> is_space d"
        using Cons by (rule leading_spaces_stop)
      show ?thesis
      proof (cases "is_punct d")
        case True
        have "\<not> has_adjacent is_space is_punct (d # unspace_punct ds)"
          using "2.IH" (1) [OF \<open>is_space c\<close> Cons True] d by (simp add: has_adjacent_Cons)
        moreover have "unspace_punct (c # cs) = d # unspace_punct ds"
          using \<open>is_space c\<close> True by (simp only: unspace_punct_space Cons list.case if_True)
        ultimately show ?thesis
          by (simp only: simp_thms)
      next
        case False
        have "\<forall>x \<in> set ((c # takeWhile is_space cs) @ [d]). \<not> is_punct x"
          using False \<open>is_space c\<close> punct_facts(1) by (auto dest: set_takeWhileD)
        then have "\<not> has_adjacent is_space is_punct ((c # takeWhile is_space cs) @ [d])"
          by (rule has_adjacent_none)
        moreover have "\<not> has_adjacent is_space is_punct (d # unspace_punct ds)"
          using "2.IH" (2) [OF \<open>is_space c\<close> Cons False] d by (simp add: has_adjacent_Cons)
        moreover have "has_adjacent is_space is_punct
                             ((c # takeWhile is_space cs) @ d # unspace_punct ds)
              = (has_adjacent is_space is_punct ((c # takeWhile is_space cs) @ [d])
                 \<or> has_adjacent is_space is_punct (d # unspace_punct ds))"
          by (rule has_adjacent_split)
        ultimately have "\<not> has_adjacent is_space is_punct
                             ((c # takeWhile is_space cs) @ d # unspace_punct ds)"
          by blast
        moreover have "unspace_punct (c # cs)
                         = (c # takeWhile is_space cs) @ d # unspace_punct ds"
          using \<open>is_space c\<close> False by (simp only: unspace_punct_space Cons list.case if_False)
        ultimately show ?thesis
          by (simp only: simp_thms)
      qed
    qed
  qed
qed

lemma unspace_punct_fixed: "\<not> has_adjacent is_space is_punct s \<Longrightarrow> unspace_punct s = s"
proof (induction s rule: unspace_punct.induct)
  case 1
  show ?case by simp
next
  case (2 c cs)
  show ?case
  proof (cases "is_space c")
    case False
    then show ?thesis
      using "2.IH" (3) [OF False] "2.prems" by (simp add: has_adjacent_Cons)
  next
    case True
    show ?thesis
    proof (cases "dropWhile is_space cs")
      case Nil
      show ?thesis
        using True by (simp only: unspace_punct_space Nil list.case)
    next
      case (Cons d ds)
      have d: "\<not> is_space d"
        using Cons by (rule leading_spaces_stop)
      have s: "c # cs = (c # takeWhile is_space cs) @ d # ds"
        using leading_spaces [OF Cons] by simp
      have "has_adjacent is_space is_punct ((c # takeWhile is_space cs) @ d # ds)
              = (has_adjacent is_space is_punct ((c # takeWhile is_space cs) @ [d])
                 \<or> has_adjacent is_space is_punct (d # ds))"
        by (rule has_adjacent_split)
      then have parts: "\<not> has_adjacent is_space is_punct ((c # takeWhile is_space cs) @ [d])"
                  "\<not> has_adjacent is_space is_punct (d # ds)"
        using "2.prems" unfolding s [symmetric] by blast+
      have "is_space (last (c # takeWhile is_space cs))"
        using True by (auto dest: set_takeWhileD last_in_set)
      then have np: "\<not> is_punct d"
        using parts(1) has_adjacent_last [where u = "c # takeWhile is_space cs" and A = is_space and d = d
            and B = is_punct]
        by blast
      have "\<not> has_adjacent is_space is_punct ds"
        using parts(2) by (simp add: has_adjacent_Cons)
      then have "unspace_punct ds = ds"
        by (rule "2.IH" (2) [OF True Cons np])
      moreover have "unspace_punct (c # cs)
                       = (c # takeWhile is_space cs) @ d # unspace_punct ds"
        using True np by (simp only: unspace_punct_space Cons list.case if_False)
      ultimately show ?thesis
        using s by (simp only:)
    qed
  qed
qed

lemma space_punct_keeps_unspaced:
  "\<not> has_adjacent is_space is_punct s \<Longrightarrow> \<not> has_adjacent is_space is_punct (space_punct s)"
proof (induction s rule: space_punct.induct)
  case (1 a b cs)
  show ?case
  proof (cases "is_punct a \<and> is_letter b")
    case True
    then show ?thesis
      using "1.IH" (1) [OF True] "1.prems" punct_facts
      by (auto simp: has_adjacent_Cons)
  next
    case False
    then show ?thesis
      using "1.IH" (2) [OF False] "1.prems"
      by (auto simp: has_adjacent_Cons simp del: space_punct.simps(1))
         (auto simp: has_adjacent_Cons)
  qed
qed simp_all

lemma space_punct_result: "\<not> has_adjacent is_punct is_letter (space_punct s)"
proof (induction s rule: space_punct.induct)
  case (1 a b cs)
  show ?case
  proof (cases "is_punct a \<and> is_letter b")
    case True
    then show ?thesis
      using "1.IH" (1) [OF True] punct_facts by (auto simp: has_adjacent_Cons)
  next
    case False
    have "space_punct (a # b # cs) = a # space_punct (b # cs)"
      using False by auto
    then show ?thesis
      using False "1.IH" (2) [OF False] by (simp add: has_adjacent_Cons del: space_punct.simps(1))
  qed
qed simp_all

lemma space_punct_fixed: "\<not> has_adjacent is_punct is_letter s \<Longrightarrow> space_punct s = s"
  by (induction s rule: space_punct.induct) auto

lemma unspace_punct_last:
  "s \<noteq> [] \<Longrightarrow> \<not> is_space (last s)
     \<Longrightarrow> unspace_punct s \<noteq> [] \<and> \<not> is_space (last (unspace_punct s))"
proof (induction s rule: unspace_punct.induct)
  case 1
  then show ?case by simp
next
  case (2 c cs)
  show ?case
  proof (cases "is_space c")
    case False
    then show ?thesis
      using "2.IH" (3) [OF False] "2.prems" by (cases cs) auto
  next
    case True
    show ?thesis
    proof (cases "dropWhile is_space cs")
      case Nil
      then have "\<forall>x \<in> set (c # cs). is_space x"
        using True by simp
      then have "is_space (last (c # cs))"
        using last_in_set [of "c # cs"] by blast
      then show ?thesis
        using "2.prems" by simp
    next
      case (Cons d ds)
      have d: "\<not> is_space d"
        using Cons by (rule leading_spaces_stop)
      have s: "c # cs = (c # takeWhile is_space cs) @ d # ds"
        using leading_spaces [OF Cons] by simp
      have l: "ds \<noteq> [] \<Longrightarrow> \<not> is_space (last ds)"
        using "2.prems" (2) by (subst (asm) s) simp
      show ?thesis
      proof (cases "is_punct d")
        case True
        have "unspace_punct (c # cs) = d # unspace_punct ds"
          using \<open>is_space c\<close> True by (simp only: unspace_punct_space Cons list.case if_True)
        then show ?thesis
          using "2.IH" (1) [OF \<open>is_space c\<close> Cons True] l d by (cases ds) auto
      next
        case False
        have "unspace_punct (c # cs) = (c # takeWhile is_space cs) @ d # unspace_punct ds"
          using \<open>is_space c\<close> False by (simp only: unspace_punct_space Cons list.case if_False)
        then show ?thesis
          using "2.IH" (2) [OF \<open>is_space c\<close> Cons False] l d by (cases ds) auto
      qed
    qed
  qed
qed

lemma unspace_punct_trimmed: "trimmed s \<Longrightarrow> trimmed (unspace_punct s)"
proof (cases s)
  case Nil
  then show ?thesis by (simp add: trimmed_def)
next
  case (Cons c cs)
  assume "trimmed s"
  then have h: "\<not> is_space c" and l: "\<not> is_space (last s)"
    by (simp_all add: trimmed_def Cons)
  have "unspace_punct s \<noteq> [] \<and> \<not> is_space (last (unspace_punct s))"
    using l by (intro unspace_punct_last) (simp add: Cons)
  moreover have "hd (unspace_punct s) = c"
    using h by (simp add: Cons)
  ultimately show ?thesis
    using h by (simp add: trimmed_def)
qed

lemma space_punct_last:
  "s \<noteq> [] \<Longrightarrow> \<not> is_space (last s)
     \<Longrightarrow> space_punct s \<noteq> [] \<and> \<not> is_space (last (space_punct s))"
proof (induction s rule: space_punct.induct)
  case (1 a b cs)
  show ?case
  proof (cases "is_punct a \<and> is_letter b")
    case True
    then show ?thesis
      using "1.IH" (1) [OF True] "1.prems" punct_facts(4) [of b] by (cases cs) auto
  next
    case False
    have "space_punct (a # b # cs) = a # space_punct (b # cs)"
      using False by auto
    then show ?thesis
      using "1.IH" (2) [OF False] "1.prems" by (simp del: space_punct.simps(1))
  qed
qed simp_all

lemma space_punct_trimmed: "trimmed s \<Longrightarrow> trimmed (space_punct s)"
proof (cases s)
  case Nil
  then show ?thesis by (simp add: trimmed_def)
next
  case (Cons c cs)
  assume "trimmed s"
  then have h: "\<not> is_space c" and l: "\<not> is_space (last s)"
    by (simp_all add: trimmed_def Cons)
  have "space_punct s \<noteq> [] \<and> \<not> is_space (last (space_punct s))"
    using l by (intro space_punct_last) (simp add: Cons)
  moreover have "hd (space_punct s) = c"
    unfolding Cons by (cases cs) auto
  ultimately show ?thesis
    using h by (simp add: trimmed_def)
qed

lemma linkedin_class_facts:
  "\<forall>c. \<not> (is_newline c \<and> is_bang c)" "\<forall>c. \<not> (is_newline c \<and> is_qmark c)"
  "\<forall>c. \<not> (is_newline c \<and> is_dot c)"
  "is_newline (CHR 0x0A)" "is_dot (CHR ''.'')"
  "\<forall>c. is_newline c \<longrightarrow> is_space c"
  "\<forall>c. is_newline c \<longrightarrow> \<not> is_punct c \<and> \<not> is_letter c \<and> c \<noteq> CHR '' ''"
  "\<forall>c. is_dot c \<longrightarrow> c = CHR ''.''"
  by (auto simp: is_newline_def is_bang_def is_qmark_def is_dot_def is_space_def is_punct_def
      is_letter_def)

lemma linkedin_normal_form:
  defines "N \<equiv> \<lambda>s. space_punct (unspace_punct
                   (replace_runs is_dot 3 ''...''
                     (replace_runs is_qmark 2 ''?''
                       (replace_runs is_bang 3 ''!''
                         (replace_runs is_newline 3 [CHR 0x0A, CHR 0x0A] s)))))"
  assumes t: "trimmed t"
  shows "trimmed (N t)"
    and "\<not> has_run is_newline 3 (N t)"
    and "\<not> has_adjacent is_space is_punct (N t)"
    and "\<not> has_adjacent is_punct is_letter (N t)"
proof -
  let ?L = "replace_runs is_newline 3 [CHR 0x0A, CHR 0x0A]"
  let ?B = "replace_runs is_bang 3 ''!''"
  let ?Q = "replace_runs is_qmark 2 ''?''"
  let ?D = "replace_runs is_dot 3 ''...''"
  let ?u = "?D (?Q (?B (?L t)))"
  have LB: "?B (?L s) = ?L (?B s)" for s
    by (rule replace_runs_commute [symmetric]) (simp_all add: linkedin_class_facts class_facts)
  have LQ: "?Q (?L s) = ?L (?Q s)" for s
    by (rule replace_runs_commute [symmetric]) (simp_all add: linkedin_class_facts class_facts)
  have LD: "?D (?L s) = ?L (?D s)" for s
    by (rule replace_runs_commute [symmetric]) (simp_all add: linkedin_class_facts class_facts)
  have "trimmed (?L t)"
    using t by (rule trimmed_replace_runs) (simp add: linkedin_class_facts)
  then have "trimmed (?B (?L t))"
    by (rule trimmed_replace_runs) (simp add: class_facts)
  then have "trimmed (?Q (?B (?L t)))"
    by (rule trimmed_replace_runs) (simp add: class_facts)
  then have "trimmed ?u"
    by (rule trimmed_replace_runs) (simp add: class_facts)
  then have "trimmed (unspace_punct ?u)"
    by (rule unspace_punct_trimmed)
  then have "trimmed (space_punct (unspace_punct ?u))"
    by (rule space_punct_trimmed)
  then show "trimmed (N t)"
    unfolding N_def .
  have "?u = ?L (?D (?Q (?B t)))"
    by (simp only: LB LQ LD)
  moreover have "\<not> has_run is_newline 3 (?L (?D (?Q (?B t))))"
    by (rule replace_runs_leaves_no_run) (simp_all add: linkedin_class_facts)
  ultimately have "\<not> has_run is_newline 3 ?u"
    by (simp only: simp_thms)
  then have "\<not> has_run is_newline 3 (unspace_punct ?u)"
    by (rule unspace_punct_keeps_no_run [rotated 2]) (simp_all add: linkedin_class_facts)
  then have "\<not> has_run is_newline 3 (space_punct (unspace_punct ?u))"
    by (rule space_punct_keeps_no_run [rotated 2]) (simp_all add: linkedin_class_facts)
  then show "\<not> has_run is_newline 3 (N t)"
    unfolding N_def .
  have "\<not> has_adjacent is_space is_punct (unspace_punct ?u)"
    by (rule unspace_punct_result)
  then have "\<not> has_adjacent is_space is_punct (space_punct (unspace_punct ?u))"
    by (rule space_punct_keeps_unspaced)
  then show "\<not> has_adjacent is_space is_punct (N t)"
    unfolding N_def .
  show "\<not> has_adjacent is_punct is_letter (N t)"
    unfolding N_def by (rule space_punct_result)
qed

lemma linkedin_postProcess_fixed:
  assumes "\<not> has_label [''LinkedIn Post'', ''Post''] (linkedin_postProcess x ctx)"
    and "\<not> has_outer_quote (linkedin_postProcess x ctx)"
    and "\<not> has_run is_bang 3 (linkedin_postProcess x ctx)"
    and "\<not> has_run is_qmark 2 (linkedin_postProcess x ctx)"
    and "\<not> has_run is_dot 4 (linkedin_postProcess x ctx)"
  shows "linkedin_postProcess (linkedin_postProcess x ctx) ctx' = linkedin_postProcess x ctx"
proof -
  let ?N = "\<lambda>s. space_punct (unspace_punct
                   (replace_runs is_dot 3 ''...''
                     (replace_runs is_qmark 2 ''?''
                       (replace_runs is_bang 3 ''!''
                         (replace_runs is_newline 3 [CHR 0x0A, CHR 0x0A] s)))))"
  let ?t = "trim (strip_quotes (strip_label [''LinkedIn Post'', ''Post''] x))"
  let ?y = "?N ?t"
  have y: "linkedin_postProcess x ctx = ?y"
    unfolding linkedin_postProcess_def Let_def ..
  have t: "trimmed ?t"
    by (rule trimmed_trim)
  note nf = linkedin_normal_form [OF t]
  have a: "strip_label [''LinkedIn Post'', ''Post''] ?y = ?y"
    using assms(1) unfolding y by (rule strip_label_none)
  have b: "strip_quotes ?y = ?y"
    using assms(2) unfolding y by (rule strip_quotes_none)
  have c: "trim ?y = ?y"
    using nf(1) by (rule trim_trimmed)
  have d: "replace_runs is_newline 3 [CHR 0x0A, CHR 0x0A] ?y = ?y"
    using nf(2) by (rule replace_runs_no_run)
  have e: "replace_runs is_bang 3 ''!'' ?y = ?y"
    using assms(3) unfolding y by (rule replace_runs_no_run)
  have f: "replace_runs is_qmark 2 ''?'' ?y = ?y"
    using assms(4) unfolding y by (rule replace_runs_no_run)
  have g: "replace_runs is_dot 3 ''...'' ?y = ?y"
  proof (rule replace_runs_exact_run [where ch = "CHR ''.''"])
    show "\<forall>c. is_dot c \<longrightarrow> c = CHR ''.''"
      by (simp add: is_dot_def)
    show "''...'' = replicate 3 (CHR ''.'')"
      by (simp add: numeral_3_eq_3)
    have s4: "Suc 3 = (4 :: nat)"
      by simp
    show "\<not> has_run is_dot (Suc 3) ?y"
      using assms(5) unfolding y s4 .
  qed
  have h: "unspace_punct ?y = ?y"
    using nf(3) by (rule unspace_punct_fixed)
  have i: "space_punct ?y = ?y"
    using nf(4) by (rule space_punct_fixed)
  have "linkedin_postProcess ?y ctx'
          = ?N (trim (strip_quotes (strip_label [''LinkedIn Post'', ''Post''] ?y)))"
    unfolding linkedin_postProcess_def Let_def ..
  also have "\<dots> = space_punct (unspace_punct
                   (replace_runs is_dot 3 ''...''
                     (replace_runs is_qmark 2 ''?''
                       (replace_runs is_bang 3 ''!''
                         (replace_runs is_newline 3 [CHR 0x0A, CHR 0x0A] ?y)))))"
    by (simp only: a b c)
  also have "\<dots> = ?y"
    by (simp only: d e f g h i)
  finally show ?thesis
    unfolding y .
qed

lemma postProcess_examples:
  "twitter_postProcess ''Tweet: Tweet: hi'' = ''Tweet: hi''"
  "twitter_postProcess ''Tweet: hi'' = ''hi''"
  "linkedin_postProcess ''a ! ! !'' example_context = ''a!!!''"
  "linkedin_postProcess ''a!!!'' example_context = ''a!''"
  "twitter_postProcess ''Tweet:   Hello   world!!!! Why???'' = ''Hello world! Why?''"
  "linkedin_postProcess ''Post: Hello ,world.....Fine!!!! ok'' example_context
     = ''Hello, world... Fine! ok''"
  by code_simp+

lemma stable_examples:
  "\<not> has_label [''Tweet'', ''Thread''] ''Hello world! Why?''"
  "\<not> has_outer_quote ''Hello world! Why?''"
  "\<not> has_label [''LinkedIn Post'', ''Post''] ''Hello, world... Fine! ok''"
  "\<not> has_outer_quote ''Hello, world... Fine! ok''"
  "\<not> has_run is_bang 3 ''Hello, world... Fine! ok''"
  "\<not> has_run is_qmark 2 ''Hello, world... Fine! ok''"
  "\<not> has_run is_dot 4 ''Hello, world... Fine! ok''"
  by code_simp+

text \<open>
  Claim C4, as the specification states it, fails for both strategies. A second role label
  is removed by the second pass only, and on LinkedIn the removal of white space before
  punctuation joins exclamation marks into a run that the second pass collapses.
\<close>

theorem postProcess_idempotent_counterexample:
  "twitter_postProcess (twitter_postProcess ''Tweet: Tweet: hi'')
     \<noteq> twitter_postProcess ''Tweet: Tweet: hi''
   \<and> linkedin_postProcess (linkedin_postProcess ''a ! ! !'' example_context) example_context
     \<noteq> linkedin_postProcess ''a ! ! !'' example_context"
  by (simp add: postProcess_examples)

text \<open>
  Claim C4, amended. For both strategies \<^verbatim>\<open>postProcess\<close> applied to its own output
  returns that output, provided the output shows nothing that the one-shot steps remove:
  no role label with its colon at the start, no quote character at either end and, for
  LinkedIn, no run of three exclamation marks, two question marks or four full stops.
  Being trimmed, having its white space, blank lines and spacing around punctuation
  normalised are then properties the output always has.
\<close>

theorem postProcess_idempotent_on_stable_output:
  "(\<not> has_label [''Tweet'', ''Thread''] (twitter_postProcess x)
      \<and> \<not> has_outer_quote (twitter_postProcess x)
    \<longrightarrow> twitter_postProcess (twitter_postProcess x) = twitter_postProcess x)
   \<and> (\<not> has_label [''LinkedIn Post'', ''Post''] (linkedin_postProcess x ctx)
      \<and> \<not> has_outer_quote (linkedin_postProcess x ctx)
      \<and> \<not> has_run is_bang 3 (linkedin_postProcess x ctx)
      \<and> \<not> has_run is_qmark 2 (linkedin_postProcess x ctx)
      \<and> \<not> has_run is_dot 4 (linkedin_postProcess x ctx)
    \<longrightarrow> linkedin_postProcess (linkedin_postProcess x ctx) ctx = linkedin_postProcess x ctx)"
  using twitter_postProcess_fixed [of x] linkedin_postProcess_fixed [of x ctx ctx]
  by blast

theorem postProcess_idempotent_on_stable_output_witness:
  "twitter_postProcess ''Tweet:   Hello   world!!!! Why???'' = ''Hello world! Why?''
   \<and> twitter_postProcess (twitter_postProcess ''Tweet:   Hello   world!!!! Why???'')
       = twitter_postProcess ''Tweet:   Hello   world!!!! Why???''
   \<and> linkedin_postProcess ''Post: Hello ,world.....Fine!!!! ok'' example_context
       = ''Hello, world... Fine! ok''
   \<and> linkedin_postProcess
         (linkedin_postProcess ''Post: Hello ,world.....Fine!!!! ok'' example_context)
         example_context
       = linkedin_postProcess ''Post: Hello ,world.....Fine!!!! ok'' example_context"
proof -
  let ?x1 = "''Tweet:   Hello   world!!!! Why???''"
  let ?x2 = "''Post: Hello ,world.....Fine!!!! ok''"
  have y1: "twitter_postProcess ?x1 = ''Hello world! Why?''"
    by (rule postProcess_examples)
  have y2: "linkedin_postProcess ?x2 example_context = ''Hello, world... Fine! ok''"
    by (rule postProcess_examples)
  have "\<not> has_label [''Tweet'', ''Thread''] (twitter_postProcess ?x1)
        \<and> \<not> has_outer_quote (twitter_postProcess ?x1)"
    unfolding y1 using stable_examples(1,2) by (rule conjI)
  then have 1: "twitter_postProcess (twitter_postProcess ?x1) = twitter_postProcess ?x1"
    using postProcess_idempotent_on_stable_output [of ?x1 example_context] by blast
  have "\<not> has_label [''LinkedIn Post'', ''Post''] (linkedin_postProcess ?x2 example_context)
        \<and> \<not> has_outer_quote (linkedin_postProcess ?x2 example_context)
        \<and> \<not> has_run is_bang 3 (linkedin_postProcess ?x2 example_context)
        \<and> \<not> has_run is_qmark 2 (linkedin_postProcess ?x2 example_context)
        \<and> \<not> has_run is_dot 4 (linkedin_postProcess ?x2 example_context)"
    unfolding y2 using stable_examples(3-7) by (intro conjI)
  then have 2: "linkedin_postProcess (linkedin_postProcess ?x2 example_context) example_context
                  = linkedin_postProcess ?x2 example_context"
    using postProcess_idempotent_on_stable_output [of ?x2 example_context] by blast
  show ?thesis
    using y1 1 y2 2 by (intro conjI)
qed

section \<open>Sentence variety\<close>

subsection \<open>Counting words\<close>

lemma count_runs_Cons:
  "count_runs N (a # t) = (if N a \<and> \<not> starts_in N t then 1 else 0) + count_runs N t"
  by (cases t) auto

lemma starts_in_append_other:
  "list_all (\<lambda>c. \<not> N c) w \<Longrightarrow> starts_in N (v @ w) = starts_in N v"
  by (cases v; cases w) auto

lemma count_runs_run:
  "u \<noteq> [] \<Longrightarrow> list_all N u \<Longrightarrow> \<not> starts_in N v
     \<Longrightarrow> count_runs N (u @ v) = 1 + count_runs N v"
proof (induction u)
  case Nil
  then show ?case by simp
next
  case (Cons a u)
  show ?case
  proof (cases "u = []")
    case True
    then show ?thesis
      using Cons.prems by (simp add: count_runs_Cons del: count_runs.simps)
  next
    case False
    then have "starts_in N (u @ v)"
      using Cons.prems by (cases u) auto
    then show ?thesis
      using Cons False by (simp add: count_runs_Cons del: count_runs.simps)
  qed
qed

lemma count_runs_skip: "list_all (\<lambda>c. \<not> N c) w \<Longrightarrow> count_runs N (w @ v) = count_runs N v"
  by (induction w) (simp_all add: count_runs_Cons del: count_runs.simps)

lemma count_runs_trail: "list_all (\<lambda>c. \<not> N c) w \<Longrightarrow> count_runs N (v @ w) = count_runs N v"
proof (induction v)
  case Nil
  then show ?case
    using count_runs_skip [of N w "[]"] by simp
next
  case (Cons a v)
  then show ?case
    by (simp add: count_runs_Cons starts_in_append_other del: count_runs.simps)
qed

lemma trim_decomposition:
  "\<exists>lead trail. s = lead @ trim s @ trail \<and> list_all is_space lead \<and> list_all is_space trail"
proof -
  let ?s' = "dropWhile is_space s"
  have "s = takeWhile is_space s @ ?s'"
    by simp
  moreover have "rev ?s' = takeWhile is_space (rev ?s') @ dropWhile is_space (rev ?s')"
    by simp
  then have "?s' = trim s @ rev (takeWhile is_space (rev ?s'))"
    unfolding trim_def by (metis rev_append rev_rev_ident)
  moreover have "list_all is_space (takeWhile is_space s)"
    "list_all is_space (rev (takeWhile is_space (rev ?s')))"
    by (auto simp: list_all_iff dest: set_takeWhileD)
  ultimately show ?thesis
    by metis
qed

lemma count_runs_trim:
  "count_runs (\<lambda>c. \<not> is_space c) (trim s) = count_runs (\<lambda>c. \<not> is_space c) s"
proof -
  obtain lead trail where s: "s = lead @ trim s @ trail"
    and lead: "list_all is_space lead" and trail: "list_all is_space trail"
    using trim_decomposition by blast
  have "count_runs (\<lambda>c. \<not> is_space c) (lead @ trim s @ trail)
          = count_runs (\<lambda>c. \<not> is_space c) (trim s)"
    using lead trail by (simp add: count_runs_skip count_runs_trail)
  then show ?thesis
    using s by simp
qed

lemma split_re_whole: "dropWhile (\<lambda>c. \<not> P c) s = [] \<Longrightarrow> split_re P s = [s]"
  by (subst split_re.simps) (simp only: list.case)

lemma split_re_piece:
  "dropWhile (\<lambda>c. \<not> P c) s = d # ds
     \<Longrightarrow> split_re P s = takeWhile (\<lambda>c. \<not> P c) s # split_re P (dropWhile P ds)"
  by (subst split_re.simps) (simp only: list.case)

lemma length_split_re:
  "t \<noteq> [] \<Longrightarrow> \<not> P (hd t)
     \<Longrightarrow> length (split_re P t)
           = count_runs (\<lambda>c. \<not> P c) t + (if P (last t) then 1 else 0)"
proof (induction P t rule: split_re.induct)
  case (1 P s)
  let ?N = "\<lambda>c. \<not> P c"
  show ?case
  proof (cases "dropWhile ?N s")
    case Nil
    then have every: "\<forall>x \<in> set s. \<not> P x"
      by simp
    then have "list_all ?N s"
      by (simp add: list_all_iff)
    then have "count_runs ?N (s @ []) = 1 + count_runs ?N []"
      using "1.prems" (1) by (intro count_runs_run) simp_all
    moreover have "\<not> P (last s)"
      using every "1.prems" (1) by simp
    ultimately show ?thesis
      by (simp add: split_re_whole [OF Nil])
  next
    case (Cons d ds)
    let ?u = "takeWhile ?N s"
    let ?w = "d # takeWhile P ds"
    let ?t = "dropWhile P ds"
    have d: "P d"
      using Cons by (metis hd_dropWhile list.distinct(1) list.sel(1))
    have s: "s = ?u @ ?w @ ?t"
      using Cons by (metis append_Cons takeWhile_dropWhile_id)
    have u: "?u \<noteq> []" "list_all ?N ?u"
      using "1.prems" by (cases s; auto simp: list_all_iff dest: set_takeWhileD)+
    have w: "list_all (\<lambda>c. \<not> ?N c) ?w"
      using d by (auto simp: list_all_iff dest: set_takeWhileD)
    have count: "count_runs ?N s = 1 + count_runs ?N ?t"
    proof -
      have "\<not> starts_in ?N (?w @ ?t)"
        using d by simp
      then have "count_runs ?N (?u @ ?w @ ?t) = 1 + count_runs ?N (?w @ ?t)"
        using u by (intro count_runs_run)
      also have "count_runs ?N (?w @ ?t) = count_runs ?N ?t"
        using w by (rule count_runs_skip)
      finally show ?thesis
        using s by simp
    qed
    have len: "length (split_re P s) = Suc (length (split_re P ?t))"
      by (simp add: split_re_piece [OF Cons])
    show ?thesis
    proof (cases "?t = []")
      case True
      then have "last s = last ?w"
        using s by (metis append_Nil2 last_appendR list.distinct(1))
      moreover have "P (last ?w)"
        using w last_in_set [of ?w] by (auto simp: list_all_iff simp del: last.simps)
      moreover have "split_re P [] = [[]]"
        by (simp add: split_re_whole)
      ultimately show ?thesis
        using len count True by simp
    next
      case False
      have "\<not> P (hd ?t)"
        using False by (rule hd_dropWhile)
      then have "length (split_re P ?t)
                   = count_runs ?N ?t + (if P (last ?t) then 1 else 0)"
        using "1.IH" [OF Cons False] by simp
      moreover have "last s = last ?t"
        using s False by (metis last_appendR append_is_Nil_conv)
      ultimately show ?thesis
        using len count by simp
    qed
  qed
qed

lemma sentence_word_count:
  assumes "0 < length (trim s)"
  shows "length (split_re is_space (trim s)) = spec_word_count s"
proof -
  have t: "trim s \<noteq> []"
    using assms by simp
  have "trimmed (trim s)"
    by (rule trimmed_trim)
  then have "\<not> is_space (hd (trim s))" "\<not> is_space (last (trim s))"
    using t by (simp_all add: trimmed_def)
  then have "length (split_re is_space (trim s)) = count_runs (\<lambda>c. \<not> is_space c) (trim s)"
    using length_split_re [OF t, of is_space] by simp
  then show ?thesis
    by (simp add: count_runs_trim spec_word_count_def)
qed

lemma foldl_plus: "foldl (\<lambda>a b. a + b) a (xs :: real list) = a + sum_list xs"
  by (induction xs arbitrary: a) simp_all

lemma foldl_squares:
  "foldl (\<lambda>sum len. sum + (len - m) ^ 2) a (xs :: real list)
     = a + sum_list (map (\<lambda>x. (x - m) ^ 2) xs)"
  by (induction xs arbitrary: a) simp_all

lemma sentence_lengths:
  "map (\<lambda>s. real (length (split_re is_space (trim s)))) (sentences_of c)
     = map (\<lambda>s. real (spec_word_count s)) (sentences_of c)"
  by (rule map_cong) (simp_all add: sentences_of_def sentence_word_count)

lemma guarded_ratio: "0 \<le> m \<Longrightarrow> (if 0 < m then s / m else 0) = s / (m :: real)"
  by auto

lemma spec_mean_nonneg: "0 \<le> spec_mean (map (\<lambda>s. real (f s)) ss)"
proof -
  have "0 \<le> sum_list (map (\<lambda>s. real (f s)) ss)"
    by (rule sum_list_nonneg) auto
  then show ?thesis
    unfolding spec_mean_def by (rule divide_nonneg_nonneg) simp
qed

lemma variety_examples:
  "sentences_of ''Hello'' = [''Hello'']"
  "sentences_of ''a. b'' = [''a'', '' b'']"
  "spec_word_count ''a'' = 1"
  "spec_word_count '' b'' = 1"
  by code_simp+

text \<open>
  Claim C5, as the specification states it, fails: a text of one sentence has sentence
  variety 1, not 0.
\<close>

theorem sentence_variety_single_sentence_counterexample:
  "length (sentences_of ''Hello'') < 2 \<and> calculateSentenceVariety ''Hello'' \<noteq> 0"
  by (simp add: calculateSentenceVariety_def variety_examples)

text \<open>
  Claim C5, amended. The sentence variety is 1 when the text has fewer than two sentences;
  otherwise it is the coefficient of variation of the word counts of the sentences: the
  standard deviation of the population divided by the mean, a word being a maximal run of
  characters that are no white space.
\<close>

theorem sentence_variety_is_coefficient_of_variation:
  "calculateSentenceVariety c =
     (if length (sentences_of c) < 2 then 1
      else spec_coefficient_of_variation
             (map (\<lambda>s. real (spec_word_count s)) (sentences_of c)))"
proof (cases "length (sentences_of c) < 2")
  case True
  then show ?thesis
    by (simp add: calculateSentenceVariety_def)
next
  case False
  let ?xs = "map (\<lambda>s. real (spec_word_count s)) (sentences_of c)"
  have "calculateSentenceVariety c =
          (if 0 < spec_mean ?xs then spec_std_dev ?xs / spec_mean ?xs else 0)"
    using False
    by (simp add: calculateSentenceVariety_def Let_def sentence_lengths foldl_plus
        foldl_squares spec_mean_def spec_std_dev_def)
  also have "\<dots> = spec_std_dev ?xs / spec_mean ?xs"
    by (rule guarded_ratio) (rule spec_mean_nonneg)
  finally show ?thesis
    using False by (simp add: spec_coefficient_of_variation_def)
qed

text \<open>One sentence gives 1; two sentences of one word each give 0.\<close>

theorem sentence_variety_is_coefficient_of_variation_witness:
  "calculateSentenceVariety ''Hello'' = 1 \<and> calculateSentenceVariety ''a. b'' = 0"
  using sentence_variety_is_coefficient_of_variation [of "''Hello''"] sentence_variety_is_coefficient_of_variation [of "''a. b''"]
  by (simp add: variety_examples spec_coefficient_of_variation_def spec_std_dev_def
      spec_mean_def)

end
